theory Spec2Isabelle
  imports Main "HOL-Library.Sublist"
begin

section \<open>Events of the observable collections\<close>

text \<open>
  The list contract has the events reset, add(index, value), remove(index, value),
  update(index, value, params) and move(from, to, value); the map contract has reset,
  add(key, value), remove(key, value) and update(key, value, params). Indices of list
  events are array positions, hence natural numbers. The payload \<open>params\<close> is opaque
  to the collections and is a type parameter here.
\<close>

datatype ('v, 'p) list_event =
    ListAdd nat 'v
  | ListRemove nat 'v
  | ListUpdate nat 'v 'p
  | ListMove nat nat 'v
  | ListReset

datatype ('k, 'v, 'p) map_event =
    MapAdd 'k 'v
  | MapRemove 'k 'v
  | MapUpdate 'k 'v 'p
  | MapReset

text \<open>
  Modelled from the spec: the classes \<open>BaseObservableList\<close> and \<open>BaseObservableMap\<close>
  (with \<open>emitAdd\<close>, \<open>emitRemove\<close>, \<open>emitUpdate\<close>, \<open>emitMove\<close>, \<open>emitReset\<close>) are
  imported by the sources but are not among them. By the spec an emit runs the matching
  handler of every subscriber synchronously; the model keeps the sequence of events an
  attached subscriber is handed, in order, and an emit appends to it.
\<close>

definition emit :: "'e list \<Rightarrow> 'e \<Rightarrow> 'e list" where
  "emit log e = log @ [e]"

text \<open>
  Reading a property of \<open>null\<close> or calling \<open>null\<close> throws a \<open>TypeError\<close>; the
  non-null assertions \<open>!\<close> of the source are erased by the compiler and check nothing.
\<close>

datatype error = TypeError



section \<open>Search helpers\<close>

subsection \<open>sortedIndex\<close>

text \<open>
  The bisection loop of \<open>sortedIndex\<close>. \<open>low\<close> and \<open>high\<close> are array positions;
  \<open>(low + high) >>> 1\<close> converts the sum to an unsigned 32-bit integer before halving,
  which is written out. With the wrap-around the loop has no evident bound, so a run
  that never ends is the value \<open>None\<close>. The comparator returns a number, of which
  only the sign is used.
\<close>

partial_function (option) sortedIndex_loop ::
  "('a \<Rightarrow> 'a \<Rightarrow> int) \<Rightarrow> 'a list \<Rightarrow> 'a \<Rightarrow> nat \<Rightarrow> nat \<Rightarrow> nat option" where
  "sortedIndex_loop comparator array v low high =
     (if low < high then
        (let mid = ((low + high) mod 2 ^ 32) div 2;
             cmpResult = comparator v (array ! mid)
         in if cmpResult > 0 then sortedIndex_loop comparator array v (mid + 1) high
            else if cmpResult < 0 then sortedIndex_loop comparator array v low mid
            else sortedIndex_loop comparator array v mid mid)
      else Some high)"

definition sortedIndex :: "'a list \<Rightarrow> 'a \<Rightarrow> ('a \<Rightarrow> 'a \<Rightarrow> int) \<Rightarrow> nat option" where
  "sortedIndex array v comparator = sortedIndex_loop comparator array v 0 (length array)"

text \<open>
  What the comparator and the array are assumed to satisfy: the comparator's sign is
  antisymmetric and its non-strict order transitive, and the array is ordered by it.
\<close>

definition consistent_comparator :: "('a \<Rightarrow> 'a \<Rightarrow> int) \<Rightarrow> bool" where
  "consistent_comparator comparator =
     ((\<forall>x y. (comparator x y < 0) = (comparator y x > 0))
      \<and> (\<forall>x y z. comparator x y \<le> 0 \<and> comparator y z \<le> 0 \<longrightarrow> comparator x z \<le> 0))"

definition sorted_by :: "('a \<Rightarrow> 'a \<Rightarrow> int) \<Rightarrow> 'a list \<Rightarrow> bool" where
  "sorted_by comparator xs = sorted_wrt (\<lambda>x y. comparator x y \<le> 0) xs"

text \<open>
  The leftmost insertion index in the words of the specification: the number of leading
  elements that compare strictly below the value.
\<close>

definition leftmost_insertion_index :: "('a \<Rightarrow> 'a \<Rightarrow> int) \<Rightarrow> 'a list \<Rightarrow> 'a \<Rightarrow> nat" where
  "leftmost_insertion_index comparator array v =
     length (takeWhile (\<lambda>x. comparator v x > 0) array)"

subsection \<open>findAndUpdateInArray\<close>

text \<open>
  \<open>Array.prototype.findIndex\<close>: the index of the first element satisfying the predicate,
  \<open>-1\<close> when there is none.
\<close>

fun findIndex_from :: "('a \<Rightarrow> bool) \<Rightarrow> 'a list \<Rightarrow> nat \<Rightarrow> int" where
  "findIndex_from p [] i = - 1"
| "findIndex_from p (x # xs) i = (if p x then int i else findIndex_from p xs (Suc i))"

definition findIndex :: "('a \<Rightarrow> bool) \<Rightarrow> 'a list \<Rightarrow> int" where
  "findIndex p xs = findIndex_from p xs 0"

text \<open>
  \<open>findAndUpdateInArray(predicate, array, observable, updater)\<close>. The updater returns
  \<open>any[] | false\<close>: \<open>None\<close> stands for \<open>false\<close>, \<open>Some params\<close> for a payload. The
  observable target is its event log. The result is the returned boolean, the target's
  log afterwards, and the arguments of the updater's invocations in order.
\<close>

definition findAndUpdateInArray ::
  "('a \<Rightarrow> bool) \<Rightarrow> 'a list \<Rightarrow> ('a, 'p) list_event list \<Rightarrow> ('a \<Rightarrow> 'p option)
     \<Rightarrow> bool \<times> ('a, 'p) list_event list \<times> 'a list" where
  "findAndUpdateInArray predicate array observable updater =
     (let index = findIndex predicate array in
      if index \<noteq> - 1 then
        (let val = array ! nat index;
             params = updater val
         in (case params of
               Some p \<Rightarrow> (True, emit observable (ListUpdate (nat index) val p), [val])
             | None \<Rightarrow> (True, observable, [val])))
      else (False, observable, []))"

section \<open>BaseObservable\<close>

text \<open>
  \<open>BaseObservable\<close> holds the set of handlers. The hooks \<open>onSubscribeFirst\<close> and
  \<open>onUnsubscribeLast\<close> have empty bodies and are overridden by subclasses; the model
  counts their invocations, as the class \<open>Collection\<close> of the source's own test does
  with \<open>firstSubscribeCalls\<close> and \<open>firstUnsubscribeCalls\<close>.
\<close>

record 'h BaseObservable =
  handlers :: "'h set"
  firstSubscribeCalls :: nat
  firstUnsubscribeCalls :: nat

definition BaseObservable_new :: "'h BaseObservable" where
  "BaseObservable_new = \<lparr>handlers = {}, firstSubscribeCalls = 0, firstUnsubscribeCalls = 0\<rparr>"

definition BaseObservable_onSubscribeFirst :: "'h BaseObservable \<Rightarrow> 'h BaseObservable" where
  "BaseObservable_onSubscribeFirst ob = ob\<lparr>firstSubscribeCalls := firstSubscribeCalls ob + 1\<rparr>"

definition BaseObservable_onUnsubscribeLast :: "'h BaseObservable \<Rightarrow> 'h BaseObservable" where
  "BaseObservable_onUnsubscribeLast ob = ob\<lparr>firstUnsubscribeCalls := firstUnsubscribeCalls ob + 1\<rparr>"

text \<open>
  \<open>subscribe(handler)\<close> adds the handler and tests \<open>size === 1\<close>. The closure it returns
  is \<open>() => this.unsubscribe(handler)\<close>, that is \<open>BaseObservable_unsubscribe (Some handler)\<close>.
\<close>

definition BaseObservable_subscribe :: "'h \<Rightarrow> 'h BaseObservable \<Rightarrow> 'h BaseObservable" where
  "BaseObservable_subscribe handler ob =
     (let ob1 = ob\<lparr>handlers := insert handler (handlers ob)\<rparr>
      in if card (handlers ob1) = 1 then BaseObservable_onSubscribeFirst ob1 else ob1)"

text \<open>
  \<open>unsubscribe(handler: T | null)\<close>: \<open>None\<close> is \<open>null\<close>. The final assignment
  \<open>handler = null\<close> of the source writes the method's own parameter and nothing else,
  so it has no counterpart in the state.
\<close>

definition BaseObservable_unsubscribe :: "'h option \<Rightarrow> 'h BaseObservable \<Rightarrow> 'h BaseObservable" where
  "BaseObservable_unsubscribe handler ob =
     (case handler of
        None \<Rightarrow> ob
      | Some h \<Rightarrow>
          (let ob1 = ob\<lparr>handlers := handlers ob - {h}\<rparr>
           in if card (handlers ob1) = 0 then BaseObservable_onUnsubscribeLast ob1 else ob1))"

section \<open>Values and source maps\<close>

text \<open>
  The values a map holds, as far as JavaScript's truthiness tells them apart; numbers
  are integers, objects are references. A lookup returns \<open>V | undefined\<close>; this is
  \<open>jsval option\<close> with \<open>None\<close> for \<open>undefined\<close>.
\<close>

datatype jsval = Null | Bool bool | Num int | Str string | Obj nat

text \<open>\<open>truthy\<close> is the conversion \<open>if (value)\<close> performs.\<close>

fun truthy :: "jsval option \<Rightarrow> bool" where
  "truthy None = False"
| "truthy (Some Null) = False"
| "truthy (Some (Bool b)) = b"
| "truthy (Some (Num n)) = (n \<noteq> 0)"
| "truthy (Some (Str s)) = (s \<noteq> [])"
| "truthy (Some (Obj r)) = True"

text \<open>
  Source maps are objects, compared by identity (\<open>indexOf\<close>): a source is a reference,
  and the heap gives every source its current entries in iteration order.

  Modelled from the spec: the source class \<open>ObservableMap\<close> (and \<open>BaseObservableMap\<close>) is
  not among the sources. By the spec a lookup of a missing key returns the absent marker,
  keys are unique within a map, and iteration yields the (key, value) pairs.
\<close>

type_synonym ref = nat

type_synonym ('k, 'v) heap = "ref \<Rightarrow> ('k \<times> 'v) list"

definition source_get :: "('k, 'v) heap \<Rightarrow> ref \<Rightarrow> 'k \<Rightarrow> 'v option" where
  "source_get h s key = map_of (h s) key"

section \<open>JoinedMap\<close>

record ('k, 'p) JoinedMap =
  sources :: "ref list"
  subscriptions :: "ref list option"
  emitted :: "('k, jsval, 'p) map_event list"

text \<open>
  \<open>_subscriptions\<close> is \<open>null\<close> until \<open>onSubscribeFirst\<close> stores one
  \<open>SourceSubscriptionHandler\<close> per source; a handler is represented by the source it
  forwards from.
\<close>

definition JoinedMap_new :: "ref list \<Rightarrow> ('k, 'p) JoinedMap" where
  "JoinedMap_new srcs = \<lparr>sources = srcs, subscriptions = None, emitted = []\<rparr>"

definition JoinedMap_emitAdd :: "('k, 'p) JoinedMap \<Rightarrow> 'k \<Rightarrow> jsval \<Rightarrow> ('k, 'p) JoinedMap" where
  "JoinedMap_emitAdd jm key v = jm\<lparr>emitted := emit (emitted jm) (MapAdd key v)\<rparr>"

definition JoinedMap_emitRemove :: "('k, 'p) JoinedMap \<Rightarrow> 'k \<Rightarrow> jsval \<Rightarrow> ('k, 'p) JoinedMap" where
  "JoinedMap_emitRemove jm key v = jm\<lparr>emitted := emit (emitted jm) (MapRemove key v)\<rparr>"

definition JoinedMap_emitUpdate ::
  "('k, 'p) JoinedMap \<Rightarrow> 'k \<Rightarrow> jsval \<Rightarrow> 'p \<Rightarrow> ('k, 'p) JoinedMap" where
  "JoinedMap_emitUpdate jm key v params = jm\<lparr>emitted := emit (emitted jm) (MapUpdate key v params)\<rparr>"

text \<open>\<open>Array.prototype.indexOf\<close>: the first index holding the element, \<open>-1\<close> if none.\<close>

fun indexOf_from :: "'a list \<Rightarrow> 'a \<Rightarrow> nat \<Rightarrow> int" where
  "indexOf_from [] x i = - 1"
| "indexOf_from (y # ys) x i = (if y = x then int i else indexOf_from ys x (Suc i))"

definition indexOf :: "'a list \<Rightarrow> 'a \<Rightarrow> int" where
  "indexOf xs x = indexOf_from xs x 0"

text \<open>\<open>_isKeyAtSourceOccluded\<close>: the loop \<open>for (let i = 0; i < index; i += 1)\<close>.\<close>

function isKeyAtSourceOccluded_loop ::
  "('k, jsval) heap \<Rightarrow> ref list \<Rightarrow> 'k \<Rightarrow> int \<Rightarrow> int \<Rightarrow> bool" where
  "isKeyAtSourceOccluded_loop h srcs key index i =
     (if i < index then
        (if source_get h (srcs ! nat i) key \<noteq> None then True
         else isKeyAtSourceOccluded_loop h srcs key index (i + 1))
      else False)"
  by pat_completeness auto
termination
  by (relation "measure (\<lambda>(h, srcs, key, index, i). nat (index - i))") auto

declare isKeyAtSourceOccluded_loop.simps [simp del]

definition isKeyAtSourceOccluded ::
  "('k, jsval) heap \<Rightarrow> ('k, 'p) JoinedMap \<Rightarrow> ref \<Rightarrow> 'k \<Rightarrow> bool" where
  "isKeyAtSourceOccluded h jm source key =
     (let index = indexOf (sources jm) source
      in isKeyAtSourceOccluded_loop h (sources jm) key index 0)"

text \<open>
  \<open>_getValueFromOccludedSources\<close>: the loop
  \<open>for (let i = index + 1; i < this._sources.length; i += 1)\<close>.
\<close>

function getValueFromOccludedSources_loop ::
  "('k, jsval) heap \<Rightarrow> ref list \<Rightarrow> 'k \<Rightarrow> nat \<Rightarrow> jsval option" where
  "getValueFromOccludedSources_loop h srcs key i =
     (if i < length srcs then
        (case source_get h (srcs ! i) key of
           Some occludedValue \<Rightarrow> Some occludedValue
         | None \<Rightarrow> getValueFromOccludedSources_loop h srcs key (i + 1))
      else None)"
  by pat_completeness auto
termination
  by (relation "measure (\<lambda>(h, srcs, key, i). length srcs - i)") auto

declare getValueFromOccludedSources_loop.simps [simp del]

definition getValueFromOccludedSources ::
  "('k, jsval) heap \<Rightarrow> ('k, 'p) JoinedMap \<Rightarrow> ref \<Rightarrow> 'k \<Rightarrow> jsval option" where
  "getValueFromOccludedSources h jm source key =
     (let index = indexOf (sources jm) source
      in getValueFromOccludedSources_loop h (sources jm) key (nat (index + 1)))"

text \<open>
  The handlers read the sources as they are when the event arrives: a source emits add
  after storing the entry and remove after deleting it.
\<close>

definition JoinedMap_onAdd ::
  "('k, jsval) heap \<Rightarrow> ('k, 'p) JoinedMap \<Rightarrow> ref \<Rightarrow> 'k \<Rightarrow> jsval \<Rightarrow> ('k, 'p) JoinedMap" where
  "JoinedMap_onAdd h jm source key v =
     (if \<not> isKeyAtSourceOccluded h jm source key then
        (let occludingValue = getValueFromOccludedSources h jm source key;
             jm1 = (case occludingValue of
                      Some ov \<Rightarrow> JoinedMap_emitRemove jm key ov
                    | None \<Rightarrow> jm)
         in JoinedMap_emitAdd jm1 key v)
      else jm)"

definition JoinedMap_onRemove ::
  "('k, jsval) heap \<Rightarrow> ('k, 'p) JoinedMap \<Rightarrow> ref \<Rightarrow> 'k \<Rightarrow> jsval \<Rightarrow> ('k, 'p) JoinedMap" where
  "JoinedMap_onRemove h jm source key v =
     (if \<not> isKeyAtSourceOccluded h jm source key then
        (let jm1 = JoinedMap_emitRemove jm key v;
             occludedValue = getValueFromOccludedSources h jm source key
         in (case occludedValue of
               Some ov \<Rightarrow> JoinedMap_emitAdd jm1 key ov
             | None \<Rightarrow> jm1))
      else jm)"

definition JoinedMap_onUpdate ::
  "('k, jsval) heap \<Rightarrow> ('k, 'p) JoinedMap \<Rightarrow> ref \<Rightarrow> 'k \<Rightarrow> jsval \<Rightarrow> 'p \<Rightarrow> ('k, 'p) JoinedMap" where
  "JoinedMap_onUpdate h jm source key v params =
     (if subscriptions jm = None then jm
      else if \<not> isKeyAtSourceOccluded h jm source key then JoinedMap_emitUpdate jm key v params
      else jm)"

definition JoinedMap_onReset :: "('k, 'p) JoinedMap \<Rightarrow> ref \<Rightarrow> ('k, 'p) JoinedMap" where
  "JoinedMap_onReset jm source = jm\<lparr>emitted := emit (emitted jm) MapReset\<rparr>"

text \<open>
  A \<open>SourceSubscriptionHandler\<close> forwards each event of its source to the joined map,
  tagged with the source. A delivery is such an event together with the sources as they
  are when it arrives.
\<close>

type_synonym ('k, 'p) delivery = "('k, jsval) heap \<times> ref \<times> ('k, jsval, 'p) map_event"

fun JoinedMap_handle :: "('k, 'p) JoinedMap \<Rightarrow> ('k, 'p) delivery \<Rightarrow> ('k, 'p) JoinedMap" where
  "JoinedMap_handle jm (h, source, MapAdd key v) = JoinedMap_onAdd h jm source key v"
| "JoinedMap_handle jm (h, source, MapRemove key v) = JoinedMap_onRemove h jm source key v"
| "JoinedMap_handle jm (h, source, MapUpdate key v params) =
     JoinedMap_onUpdate h jm source key v params"
| "JoinedMap_handle jm (h, source, MapReset) = JoinedMap_onReset jm source"

text \<open>
  \<open>onSubscribeFirst\<close> subscribes a handler to every source and only then assigns the
  array of handlers to \<open>_subscriptions\<close>. A source may emit while \<open>source.subscribe()\<close>
  runs (its own first subscription can do so); \<open>during\<close> is the sequence of events
  delivered to the joined map in that time. \<open>onUnsubscribeLast\<close> disposes the handlers and
  leaves the field as it is.
\<close>

definition JoinedMap_onSubscribeFirst ::
  "('k, 'p) delivery list \<Rightarrow> ('k, 'p) JoinedMap \<Rightarrow> ('k, 'p) JoinedMap" where
  "JoinedMap_onSubscribeFirst during jm =
     (let jm1 = foldl JoinedMap_handle jm during
      in jm1\<lparr>subscriptions := Some (sources jm1)\<rparr>)"

definition JoinedMap_onUnsubscribeLast :: "('k, 'p) JoinedMap \<Rightarrow> ('k, 'p) JoinedMap" where
  "JoinedMap_onUnsubscribeLast jm = jm"

text \<open>\<open>get(key)\<close>: the loop over the sources with the test \<open>if (value)\<close>.\<close>

fun JoinedMap_get_loop :: "('k, jsval) heap \<Rightarrow> ref list \<Rightarrow> 'k \<Rightarrow> jsval option" where
  "JoinedMap_get_loop h [] key = None"
| "JoinedMap_get_loop h (s # ss) key =
     (let v = source_get h s key
      in if truthy v then v else JoinedMap_get_loop h ss key)"

definition JoinedMap_get :: "('k, jsval) heap \<Rightarrow> ('k, 'p) JoinedMap \<Rightarrow> 'k \<Rightarrow> jsval option" where
  "JoinedMap_get h jm key = JoinedMap_get_loop h (sources jm) key"

subsection \<open>JoinedIterator\<close>

text \<open>
  The iterator holds the sources, \<open>_sourceIndex\<close> (initially \<open>-1\<close>), the iterator of
  the current source (\<open>null\<close> between sources; an iterator is the list of entries it has
  yet to yield) and the set of keys yielded so far. Each source is given by the entries
  its own iterator yields.
\<close>

record ('k, 'v) JoinedIterator =
  it_sources :: "('k \<times> 'v) list list"
  sourceIndex :: int
  currentIterator :: "('k \<times> 'v) list option"
  encounteredKeys :: "'k set"

definition JoinedIterator_new :: "('k \<times> 'v) list list \<Rightarrow> ('k, 'v) JoinedIterator" where
  "JoinedIterator_new srcs =
     \<lparr>it_sources = srcs, sourceIndex = - 1, currentIterator = None, encounteredKeys = {}\<rparr>"

text \<open>The rank that decreases along the loop of \<open>next\<close>, for its termination.\<close>

definition JoinedIterator_rank :: "('k, 'v) JoinedIterator \<Rightarrow> nat \<times> nat" where
  "JoinedIterator_rank it =
     (nat (int (length (it_sources it)) - sourceIndex it),
      (case currentIterator it of None \<Rightarrow> 0 | Some xs \<Rightarrow> Suc (length xs)))"

function JoinedIterator_next ::
  "('k, 'v) JoinedIterator \<Rightarrow> ('k \<times> 'v) option \<times> ('k, 'v) JoinedIterator" where
  "JoinedIterator_next it =
     (case currentIterator it of
        None \<Rightarrow>
          (let it1 = it\<lparr>sourceIndex := sourceIndex it + 1\<rparr>
           in if int (length (it_sources it1)) \<le> sourceIndex it1 then (None, it1)
              else JoinedIterator_next
                     (it1\<lparr>currentIterator := Some (it_sources it1 ! nat (sourceIndex it1))\<rparr>))
      | Some [] \<Rightarrow> JoinedIterator_next (it\<lparr>currentIterator := None\<rparr>)
      | Some ((key, v) # rest) \<Rightarrow>
          (if key \<notin> encounteredKeys it then
             (Some (key, v),
              it\<lparr>currentIterator := Some rest,
                 encounteredKeys := insert key (encounteredKeys it)\<rparr>)
           else JoinedIterator_next (it\<lparr>currentIterator := Some rest\<rparr>)))"
  by pat_completeness auto
termination
  by (relation "inv_image (less_than <*lex*> less_than) JoinedIterator_rank")
     (auto simp: JoinedIterator_rank_def)

declare JoinedIterator_next.simps [simp del]

lemma JoinedIterator_next_rank:
  "JoinedIterator_next it = (Some kv, it')
     \<Longrightarrow> (JoinedIterator_rank it', JoinedIterator_rank it) \<in> less_than <*lex*> less_than"
proof (induction it rule: JoinedIterator_next.induct)
  case (1 it)
  show ?case
  proof (cases "currentIterator it")
    case None
    let ?it1 = "it\<lparr>sourceIndex := sourceIndex it + 1\<rparr>"
    let ?it2 = "?it1\<lparr>currentIterator := Some (it_sources ?it1 ! nat (sourceIndex ?it1))\<rparr>"
    from "1.prems" None have lt: "\<not> int (length (it_sources ?it1)) \<le> sourceIndex ?it1"
      by (auto simp: JoinedIterator_next.simps [of it] Let_def split: if_splits)
    with "1.prems" None have "JoinedIterator_next ?it2 = (Some kv, it')"
      by (simp add: JoinedIterator_next.simps [of it] Let_def)
    with "1.IH"(1) [OF None refl lt]
    have "(JoinedIterator_rank it', JoinedIterator_rank ?it2) \<in> less_than <*lex*> less_than"
      by simp
    moreover have "(JoinedIterator_rank ?it2, JoinedIterator_rank it) \<in> less_than <*lex*> less_than"
      using lt by (auto simp: JoinedIterator_rank_def)
    ultimately show ?thesis
      by (auto simp: JoinedIterator_rank_def)
  next
    case (Some xs)
    show ?thesis
    proof (cases xs)
      case Nil
      let ?it2 = "it\<lparr>currentIterator := None\<rparr>"
      from "1.prems" Some Nil have "JoinedIterator_next ?it2 = (Some kv, it')"
        by (simp add: JoinedIterator_next.simps [of it])
      with "1.IH"(2) [OF Some Nil]
      have "(JoinedIterator_rank it', JoinedIterator_rank ?it2) \<in> less_than <*lex*> less_than"
        by simp
      moreover have "(JoinedIterator_rank ?it2, JoinedIterator_rank it) \<in> less_than <*lex*> less_than"
        using Some Nil by (auto simp: JoinedIterator_rank_def)
      ultimately show ?thesis
        by (auto simp: JoinedIterator_rank_def)
    next
      case (Cons x rest)
      obtain key v where x: "x = (key, v)" by (cases x)
      show ?thesis
      proof (cases "key \<in> encounteredKeys it")
        case False
        with "1.prems" Some Cons x
        have "it' = it\<lparr>currentIterator := Some rest,
                 encounteredKeys := insert key (encounteredKeys it)\<rparr>"
          by (simp add: JoinedIterator_next.simps [of it])
        with Some Cons show ?thesis
          by (auto simp: JoinedIterator_rank_def)
      next
        case True
        let ?it2 = "it\<lparr>currentIterator := Some rest\<rparr>"
        from "1.prems" Some Cons x True have "JoinedIterator_next ?it2 = (Some kv, it')"
          by (simp add: JoinedIterator_next.simps [of it])
        with "1.IH"(3) [OF Some Cons x [symmetric]] True
        have "(JoinedIterator_rank it', JoinedIterator_rank ?it2) \<in> less_than <*lex*> less_than"
          by simp
        moreover have "(JoinedIterator_rank ?it2, JoinedIterator_rank it) \<in> less_than <*lex*> less_than"
          using Some Cons by (auto simp: JoinedIterator_rank_def)
        ultimately show ?thesis
          by (auto simp: JoinedIterator_rank_def)
      qed
    qed
  qed
qed

text \<open>A \<open>for ... of\<close> loop over the iterator: \<open>next\<close> is called until it reports done.\<close>

function JoinedIterator_drain :: "('k, 'v) JoinedIterator \<Rightarrow> ('k \<times> 'v) list" where
  "JoinedIterator_drain it =
     (case JoinedIterator_next it of
        (None, it') \<Rightarrow> []
      | (Some kv, it') \<Rightarrow> kv # JoinedIterator_drain it')"
  by pat_completeness auto
termination
  by (relation "inv_image (less_than <*lex*> less_than) JoinedIterator_rank")
     (auto dest: JoinedIterator_next_rank [OF sym])

declare JoinedIterator_drain.simps [simp del]


text \<open>\<open>JoinedMap[Symbol.iterator]\<close> and the entries a loop over the map sees.\<close>

definition JoinedMap_iterator ::
  "('k, jsval) heap \<Rightarrow> ('k, 'p) JoinedMap \<Rightarrow> ('k, jsval) JoinedIterator" where
  "JoinedMap_iterator h jm = JoinedIterator_new (map h (sources jm))"

definition JoinedMap_entries ::
  "('k, jsval) heap \<Rightarrow> ('k, 'p) JoinedMap \<Rightarrow> ('k \<times> jsval) list" where
  "JoinedMap_entries h jm = JoinedIterator_drain (JoinedMap_iterator h jm)"

text \<open>
  The iteration rule in the words of the specification: the sources' entries concatenated
  in source order, skipping every key already yielded (\<open>seen\<close>).
\<close>

fun first_wins :: "'k set \<Rightarrow> ('k \<times> 'v) list \<Rightarrow> ('k \<times> 'v) list" where
  "first_wins seen [] = []"
| "first_wins seen ((k, v) # xs) =
     (if k \<in> seen then first_wins seen xs else (k, v) # first_wins (insert k seen) xs)"

text \<open>
  The entries an iterator has yet to visit: the rest of the current source, then the
  sources after it.
\<close>

definition JoinedIterator_remaining :: "('k, 'v) JoinedIterator \<Rightarrow> ('k \<times> 'v) list" where
  "JoinedIterator_remaining it =
     (case currentIterator it of None \<Rightarrow> [] | Some xs \<Rightarrow> xs)
       @ concat (drop (nat (sourceIndex it + 1)) (it_sources it))"

section \<open>ApplyMap\<close>

text \<open>
  The apply callback is arbitrary code; the model identifies it by a name and records
  what \<open>ApplyMap\<close> does to its surroundings, in order: subscribing to the source, and
  each invocation of the callback with its arguments (\<open>None\<close> for an omitted \<open>params\<close>).
\<close>

datatype ('cb, 'k, 'v, 'p) apply_action =
    SourceSubscribe
  | ApplyCall 'cb 'k 'v "'p option"

record ('cb, 'k, 'v, 'p) ApplyMap =
  am_apply :: "'cb option"
  am_subscription :: bool
  am_actions :: "('cb, 'k, 'v, 'p) apply_action list"

definition ApplyMap_new :: "'cb option \<Rightarrow> ('cb, 'k, 'v, 'p) ApplyMap" where
  "ApplyMap_new apply = \<lparr>am_apply = apply, am_subscription = False, am_actions = []\<rparr>"

text \<open>\<open>applyOnce(apply)\<close>: the loop over the source's entries.\<close>

fun ApplyMap_applyOnce ::
  "('k \<times> 'v) list \<Rightarrow> 'cb \<Rightarrow> ('cb, 'k, 'v, 'p) ApplyMap \<Rightarrow> ('cb, 'k, 'v, 'p) ApplyMap" where
  "ApplyMap_applyOnce [] apply am = am"
| "ApplyMap_applyOnce ((key, v) # rest) apply am =
     ApplyMap_applyOnce rest apply (am\<lparr>am_actions := am_actions am @ [ApplyCall apply key v None]\<rparr>)"

text \<open>
  \<open>onSubscribeFirst\<close>; \<open>src\<close> is the source's entries. The final
  \<open>super.onSubscribeFirst()\<close> is the empty hook of \<open>BaseObservable\<close>.
\<close>

definition ApplyMap_onSubscribeFirst ::
  "('k \<times> 'v) list \<Rightarrow> ('cb, 'k, 'v, 'p) ApplyMap \<Rightarrow> ('cb, 'k, 'v, 'p) ApplyMap" where
  "ApplyMap_onSubscribeFirst src am =
     (let am1 = am\<lparr>am_subscription := True, am_actions := am_actions am @ [SourceSubscribe]\<rparr>
      in (case am_apply am1 of
            Some apply \<Rightarrow> ApplyMap_applyOnce src apply am1
          | None \<Rightarrow> am1))"

section \<open>MappedList and MappedMap\<close>





















section \<open>FilteredList\<close>

text \<open>
  The inclusion mask is a JavaScript array of booleans. Reading past its end gives
  \<open>undefined\<close>, which every use treats as false; writing at or past its end extends it
  (the gap, if any, reads as \<open>undefined\<close>); \<open>splice(idx, 0, b)\<close> inserts at \<open>idx\<close> or
  at the end when \<open>idx\<close> is larger; \<open>splice(idx, 1)\<close> removes the element at \<open>idx\<close>
  when there is one.
\<close>

definition mask_get :: "bool list \<Rightarrow> nat \<Rightarrow> bool" where
  "mask_get m i = (i < length m \<and> m ! i)"

definition mask_set :: "bool list \<Rightarrow> nat \<Rightarrow> bool \<Rightarrow> bool list" where
  "mask_set m i b =
     (if i < length m then m[i := b] else m @ replicate (i - length m) False @ [b])"

definition splice_insert :: "bool list \<Rightarrow> nat \<Rightarrow> bool \<Rightarrow> bool list" where
  "splice_insert m idx b = take idx m @ [b] @ drop idx m"

definition splice_remove :: "bool list \<Rightarrow> nat \<Rightarrow> bool list" where
  "splice_remove m idx = take idx m @ drop (Suc idx) m"

text \<open>
  The filter is \<open>(value, index) => boolean\<close>; \<open>params\<close> is \<open>any\<close> with \<open>null\<close> as
  the default, hence an option. The source list is not owned by the filtered list: every
  operation that reads \<open>this._source\<close> takes the source's current elements \<open>src\<close>.
\<close>

record ('v, 'p) FilteredList =
  fl_filter :: "('v \<Rightarrow> nat \<Rightarrow> bool) option"
  fl_included :: "bool list option"
  fl_subscription :: bool
  fl_emitted :: "('v, 'p option) list_event list"

definition FilteredList_new :: "('v \<Rightarrow> nat \<Rightarrow> bool) option \<Rightarrow> ('v, 'p) FilteredList" where
  "FilteredList_new filter' =
     \<lparr>fl_filter = filter', fl_included = None, fl_subscription = False, fl_emitted = []\<rparr>"

definition emitForUpdate ::
  "('v, 'p option) list_event list \<Rightarrow> bool \<Rightarrow> bool \<Rightarrow> nat \<Rightarrow> 'v \<Rightarrow> 'p option
     \<Rightarrow> ('v, 'p option) list_event list" where
  "emitForUpdate log wasIncluded isIncluded idx v params =
     (if wasIncluded \<and> \<not> isIncluded then emit log (ListRemove idx v)
      else if \<not> wasIncluded \<and> isIncluded then emit log (ListAdd idx v)
      else if wasIncluded \<and> isIncluded then emit log (ListUpdate idx v params)
      else log)"

text \<open>
  The first loop of \<open>_reapplyFilter\<close>, over the source's elements. When a mask existed
  (\<open>hadOld\<close>) \<open>oldIncluded\<close> and \<open>this._included\<close> are one and the same array, so
  \<open>oldIncluded[i]\<close> is read from the mask the loop is writing; otherwise
  \<open>wasIncluded\<close> is true. The loop state is the mask and the event log.
\<close>

fun reapplyFilter_loop ::
  "('v \<Rightarrow> nat \<Rightarrow> bool) \<Rightarrow> bool \<Rightarrow> bool \<Rightarrow> 'v list \<Rightarrow> nat \<Rightarrow> nat
     \<Rightarrow> bool list \<times> ('v, 'p option) list_event list
     \<Rightarrow> bool list \<times> ('v, 'p option) list_event list" where
  "reapplyFilter_loop filter' hadOld silent [] i translatedIndex (m, log) = (m, log)"
| "reapplyFilter_loop filter' hadOld silent (v # rest) i translatedIndex (m, log) =
     (let isIncluded = filter' v i;
          wasIncluded = (if hadOld then mask_get m i else True);
          m1 = mask_set m i isIncluded;
          log1 = (if \<not> silent then emitForUpdate log wasIncluded isIncluded translatedIndex v None
                  else log)
      in reapplyFilter_loop filter' hadOld silent rest (i + 1)
           (if isIncluded then translatedIndex + 1 else translatedIndex) (m1, log1))"

text \<open>The second loop of \<open>_reapplyFilter\<close>, taken when the filter is \<open>null\<close>.\<close>

fun reapplyFilter_unfiltered_loop ::
  "bool list \<Rightarrow> bool \<Rightarrow> 'v list \<Rightarrow> nat \<Rightarrow> ('v, 'p option) list_event list
     \<Rightarrow> ('v, 'p option) list_event list" where
  "reapplyFilter_unfiltered_loop m silent [] i log = log"
| "reapplyFilter_unfiltered_loop m silent (v # rest) i log =
     reapplyFilter_unfiltered_loop m silent rest (i + 1)
       (if \<not> mask_get m i \<and> \<not> silent then emit log (ListAdd i v) else log)"

definition reapplyFilter :: "'v list \<Rightarrow> bool \<Rightarrow> ('v, 'p) FilteredList \<Rightarrow> ('v, 'p) FilteredList" where
  "reapplyFilter src silent fl =
     (case fl_filter fl of
        Some filter' \<Rightarrow>
          (let hadOld = (fl_included fl \<noteq> None);
               m0 = (case fl_included fl of
                       Some m \<Rightarrow> m
                     | None \<Rightarrow> replicate (length src) False);
               (m', log') = reapplyFilter_loop filter' hadOld silent src 0 0 (m0, fl_emitted fl)
           in fl\<lparr>fl_included := Some m', fl_emitted := log'\<rparr>)
      | None \<Rightarrow>
          (case fl_included fl of
             None \<Rightarrow> fl
           | Some m \<Rightarrow>
               fl\<lparr>fl_emitted := reapplyFilter_unfiltered_loop m silent src 0 (fl_emitted fl),
                  fl_included := None\<rparr>))"

text \<open>\<open>_translateIndex\<close>: \<open>while (i < idx) { if (this._included[i++]) t++; }\<close>.\<close>

function translateIndex_loop :: "bool list \<Rightarrow> nat \<Rightarrow> nat \<Rightarrow> nat \<Rightarrow> nat" where
  "translateIndex_loop m idx i t =
     (if i < idx then translateIndex_loop m idx (i + 1) (if mask_get m i then t + 1 else t)
      else t)"
  by pat_completeness auto
termination
  by (relation "measure (\<lambda>(m, idx, i, t). idx - i)") auto

declare translateIndex_loop.simps [simp del]

definition translateIndex :: "('v, 'p) FilteredList \<Rightarrow> nat \<Rightarrow> nat" where
  "translateIndex fl idx =
     (case fl_included fl of
        None \<Rightarrow> idx
      | Some m \<Rightarrow> translateIndex_loop m idx 0 0)"

definition FilteredList_emit ::
  "('v, 'p) FilteredList \<Rightarrow> ('v, 'p option) list_event \<Rightarrow> ('v, 'p) FilteredList" where
  "FilteredList_emit fl e = fl\<lparr>fl_emitted := emit (fl_emitted fl) e\<rparr>"

definition FilteredList_setFilter ::
  "'v list \<Rightarrow> ('v \<Rightarrow> nat \<Rightarrow> bool) option \<Rightarrow> ('v, 'p) FilteredList \<Rightarrow> ('v, 'p) FilteredList" where
  "FilteredList_setFilter src filter' fl =
     (let fl1 = fl\<lparr>fl_filter := filter'\<rparr>
      in if fl_subscription fl1 then reapplyFilter src False fl1 else fl1)"

text \<open>
  The handlers. A source emits after changing itself, so \<open>src\<close> is the source after the
  event. Where the source dereferences a field that may be \<open>null\<close>, the handler returns
  the error.
\<close>

definition FilteredList_onAdd ::
  "'v list \<Rightarrow> ('v, 'p) FilteredList \<Rightarrow> nat \<Rightarrow> 'v \<Rightarrow> ('v, 'p) FilteredList" where
  "FilteredList_onAdd src fl idx v =
     (case fl_filter fl of
        Some filter' \<Rightarrow>
          (let isIncluded = filter' v idx;
               fl1 = fl\<lparr>fl_included :=
                        map_option (\<lambda>m. splice_insert m idx isIncluded) (fl_included fl)\<rparr>
           in if \<not> isIncluded then fl1
              else reapplyFilter src False
                     (FilteredList_emit fl1 (ListAdd (translateIndex fl1 idx) v)))
      | None \<Rightarrow>
          reapplyFilter src False (FilteredList_emit fl (ListAdd (translateIndex fl idx) v)))"

definition FilteredList_onRemove ::
  "'v list \<Rightarrow> ('v, 'p) FilteredList \<Rightarrow> nat \<Rightarrow> 'v \<Rightarrow> error + ('v, 'p) FilteredList" where
  "FilteredList_onRemove src fl idx v =
     (if fl_filter fl \<noteq> None \<and> fl_included fl = None then Inl TypeError
      else
        (let wasIncluded = (fl_filter fl = None
                            \<or> (case fl_included fl of Some m \<Rightarrow> mask_get m idx | None \<Rightarrow> False));
             translatedIndex = translateIndex fl idx;
             fl1 = fl\<lparr>fl_included := map_option (\<lambda>m. splice_remove m idx) (fl_included fl)\<rparr>;
             fl2 = (if wasIncluded then FilteredList_emit fl1 (ListRemove translatedIndex v)
                    else fl1)
         in Inr (reapplyFilter src False fl2)))"

definition FilteredList_onUpdate ::
  "('v, 'p) FilteredList \<Rightarrow> nat \<Rightarrow> 'v \<Rightarrow> 'p option \<Rightarrow> error + ('v, 'p) FilteredList" where
  "FilteredList_onUpdate fl idx v params =
     (case fl_included fl of
        None \<Rightarrow> Inr (FilteredList_emit fl (ListUpdate idx v params))
      | Some m \<Rightarrow>
          (case fl_filter fl of
             None \<Rightarrow> Inl TypeError
           | Some filter' \<Rightarrow>
               (let wasIncluded = mask_get m idx;
                    isIncluded = filter' v idx;
                    fl1 = fl\<lparr>fl_included := Some (mask_set m idx isIncluded)\<rparr>
                in Inr (fl1\<lparr>fl_emitted :=
                          emitForUpdate (fl_emitted fl1) wasIncluded isIncluded
                            (translateIndex fl1 idx) v params\<rparr>))))"

definition FilteredList_onMove ::
  "'v list \<Rightarrow> ('v, 'p) FilteredList \<Rightarrow> nat \<Rightarrow> nat \<Rightarrow> 'v \<Rightarrow> error + ('v, 'p) FilteredList" where
  "FilteredList_onMove src fl from to v =
     (case fl_included fl of
        None \<Rightarrow> Inr (FilteredList_emit fl (ListMove from to v))
      | Some m \<Rightarrow>
          (case fl_filter fl of
             None \<Rightarrow> Inl TypeError
           | Some filter' \<Rightarrow>
               (let tfrom = translateIndex fl from;
                    tto = translateIndex fl to;
                    wasIncluded = mask_get m from;
                    isIncluded = filter' v to;
                    fl1 = fl\<lparr>fl_included :=
                             Some (splice_insert (splice_remove m from) to isIncluded)\<rparr>;
                    fl2 = (if wasIncluded \<and> isIncluded then FilteredList_emit fl1 (ListMove tfrom tto v)
                           else if wasIncluded \<and> \<not> isIncluded then FilteredList_emit fl1 (ListRemove tfrom v)
                           else if \<not> wasIncluded \<and> isIncluded then FilteredList_emit fl1 (ListAdd tto v)
                           else fl1)
                in Inr (reapplyFilter src False fl2))))"

definition FilteredList_onReset :: "'v list \<Rightarrow> ('v, 'p) FilteredList \<Rightarrow> ('v, 'p) FilteredList" where
  "FilteredList_onReset src fl = FilteredList_emit (reapplyFilter src False fl) ListReset"

definition FilteredList_onSubscribeFirst ::
  "'v list \<Rightarrow> ('v, 'p) FilteredList \<Rightarrow> ('v, 'p) FilteredList" where
  "FilteredList_onSubscribeFirst src fl = reapplyFilter src True (fl\<lparr>fl_subscription := True\<rparr>)"

text \<open>\<open>get length()\<close>: \<open>this._included!.forEach(...)\<close> counting the true entries.\<close>

fun count_included :: "bool list \<Rightarrow> nat \<Rightarrow> nat" where
  "count_included [] count = count"
| "count_included (inc # rest) count = count_included rest (if inc then count + 1 else count)"

definition FilteredList_length :: "('v, 'p) FilteredList \<Rightarrow> error + nat" where
  "FilteredList_length fl =
     (case fl_included fl of
        None \<Rightarrow> Inl TypeError
      | Some m \<Rightarrow> Inr (count_included m 0))"

subsection \<open>FilterIterator\<close>

text \<open>
  The iterator keeps the mask it was given (possibly \<open>null\<close>), its index and the
  source's iterator, the latter as the elements still to come.
\<close>

record 'v FilterIterator =
  fi_included :: "bool list option"
  fi_index :: nat
  fi_sourceIterator :: "'v list"

definition FilteredList_iterator :: "'v list \<Rightarrow> ('v, 'p) FilteredList \<Rightarrow> 'v FilterIterator" where
  "FilteredList_iterator src fl =
     \<lparr>fi_included = fl_included fl, fi_index = 0, fi_sourceIterator = src\<rparr>"

function FilterIterator_next :: "'v FilterIterator \<Rightarrow> error + ('v option \<times> 'v FilterIterator)" where
  "FilterIterator_next it =
     (case fi_sourceIterator it of
        [] \<Rightarrow> Inr (None, it)
      | v # rest \<Rightarrow>
          (let it1 = it\<lparr>fi_sourceIterator := rest, fi_index := fi_index it + 1\<rparr>
           in (case fi_included it of
                 None \<Rightarrow> Inl TypeError
               | Some m \<Rightarrow>
                   if mask_get m (fi_index it) then Inr (Some v, it1)
                   else FilterIterator_next it1)))"
  by pat_completeness auto
termination
  by (relation "measure (\<lambda>it. length (fi_sourceIterator it))") auto

declare FilterIterator_next.simps [simp del]

lemma FilterIterator_next_shorter:
  "FilterIterator_next it = Inr (Some v, it')
     \<Longrightarrow> length (fi_sourceIterator it') < length (fi_sourceIterator it)"
proof (induction it rule: FilterIterator_next.induct)
  case (1 it)
  show ?case
  proof (cases "fi_sourceIterator it")
    case Nil
    with "1.prems" show ?thesis
      by (simp add: FilterIterator_next.simps [of it])
  next
    case (Cons x rest)
    let ?it1 = "it\<lparr>fi_sourceIterator := rest, fi_index := fi_index it + 1\<rparr>"
    from "1.prems" Cons obtain m where m: "fi_included it = Some m"
      by (cases "fi_included it") (auto simp: FilterIterator_next.simps [of it])
    show ?thesis
    proof (cases "mask_get m (fi_index it)")
      case True
      with "1.prems" Cons m have "it' = ?it1"
        by (simp add: FilterIterator_next.simps [of it])
      with Cons show ?thesis by simp
    next
      case False
      with "1.prems" Cons m have "FilterIterator_next ?it1 = Inr (Some v, it')"
        by (simp add: FilterIterator_next.simps [of it])
      with "1.IH" [OF Cons refl m False] Cons show ?thesis by simp
    qed
  qed
qed

text \<open>A \<open>for ... of\<close> loop over the filtered list.\<close>

function FilterIterator_drain :: "'v FilterIterator \<Rightarrow> error + 'v list" where
  "FilterIterator_drain it =
     (case FilterIterator_next it of
        Inl e \<Rightarrow> Inl e
      | Inr (None, it') \<Rightarrow> Inr []
      | Inr (Some v, it') \<Rightarrow>
          (case FilterIterator_drain it' of
             Inl e \<Rightarrow> Inl e
           | Inr vs \<Rightarrow> Inr (v # vs)))"
  by pat_completeness auto
termination
  by (relation "measure (\<lambda>it. length (fi_sourceIterator it))")
     (auto dest: FilterIterator_next_shorter)

declare FilterIterator_drain.simps [simp del]

definition FilteredList_elements :: "'v list \<Rightarrow> ('v, 'p) FilteredList \<Rightarrow> error + 'v list" where
  "FilteredList_elements src fl = FilterIterator_drain (FilteredList_iterator src fl)"

subsection \<open>Changes of the source list\<close>

text \<open>
  Modelled from the spec: the leaf list that originates the events (\<open>ObservableArray\<close>)
  is external. By the list contract the index of an add is valid after the event, the
  index of a remove and the source index of a move before it; a move takes the element
  out and puts it back at the destination. \<open>valid_change\<close> says the indices are in
  range, \<open>apply_change\<close> is the source after the change.
\<close>

datatype 'v source_change = Added nat 'v | Removed nat | Updated nat 'v | Moved nat nat

fun valid_change :: "'v list \<Rightarrow> 'v source_change \<Rightarrow> bool" where
  "valid_change src (Added idx v) = (idx \<le> length src)"
| "valid_change src (Removed idx) = (idx < length src)"
| "valid_change src (Updated idx v) = (idx < length src)"
| "valid_change src (Moved from to) = (from < length src \<and> to < length src)"

fun apply_change :: "'v list \<Rightarrow> 'v source_change \<Rightarrow> 'v list" where
  "apply_change src (Added idx v) = take idx src @ [v] @ drop idx src"
| "apply_change src (Removed idx) = take idx src @ drop (Suc idx) src"
| "apply_change src (Updated idx v) = src[idx := v]"
| "apply_change src (Moved from to) =
     (let rest = take from src @ drop (Suc from) src
      in take to rest @ [src ! from] @ drop to rest)"

text \<open>
  The source changes and then calls the matching handler with the event's index and
  value; \<open>deliver_all\<close> does so for a sequence of changes and stops at an error.
\<close>

fun deliver ::
  "'v list \<Rightarrow> ('v, 'p) FilteredList \<Rightarrow> 'v source_change \<Rightarrow> error + ('v, 'p) FilteredList" where
  "deliver src fl (Added idx v) = Inr (FilteredList_onAdd (apply_change src (Added idx v)) fl idx v)"
| "deliver src fl (Removed idx) =
     FilteredList_onRemove (apply_change src (Removed idx)) fl idx (src ! idx)"
| "deliver src fl (Updated idx v) = FilteredList_onUpdate fl idx v None"
| "deliver src fl (Moved from to) =
     FilteredList_onMove (apply_change src (Moved from to)) fl from to (src ! from)"

fun deliver_all ::
  "'v list \<Rightarrow> ('v, 'p) FilteredList \<Rightarrow> 'v source_change list
     \<Rightarrow> error + ('v list \<times> ('v, 'p) FilteredList)" where
  "deliver_all src fl [] = Inr (src, fl)"
| "deliver_all src fl (c # cs) =
     (case deliver src fl c of
        Inl e \<Rightarrow> Inl e
      | Inr fl' \<Rightarrow> deliver_all (apply_change src c) fl' cs)"

fun valid_changes :: "'v list \<Rightarrow> 'v source_change list \<Rightarrow> bool" where
  "valid_changes src [] = True"
| "valid_changes src (c # cs) = (valid_change src c \<and> valid_changes (apply_change src c) cs)"

text \<open>
  The mask mirrors the source under a predicate of the value alone: it is allocated and
  holds, at every index of the source, whether the element there satisfies the predicate.
\<close>

definition mask_mirrors :: "('v \<Rightarrow> bool) \<Rightarrow> 'v list \<Rightarrow> ('v, 'p) FilteredList \<Rightarrow> bool" where
  "mask_mirrors P src fl =
     (fl_filter fl = Some (\<lambda>v i. P v) \<and> fl_included fl = Some (map P src))"

section \<open>Properties of the search helpers\<close>

subsection \<open>findAndUpdateInArray\<close>

lemma findIndex_from_none:
  "(\<forall>x \<in> set xs. \<not> p x) \<Longrightarrow> findIndex_from p xs i = - 1"
  by (induction xs arbitrary: i) auto

lemma findIndex_from_first:
  "k < length xs \<Longrightarrow> p (xs ! k) \<Longrightarrow> (\<forall>j < k. \<not> p (xs ! j))
     \<Longrightarrow> findIndex_from p xs i = int (i + k)"
proof (induction xs arbitrary: i k)
  case Nil
  then show ?case by simp
next
  case (Cons x xs)
  show ?case
  proof (cases k)
    case 0
    with Cons.prems show ?thesis by simp
  next
    case (Suc k')
    from Cons.prems Suc have "\<not> p x" by auto
    moreover from Cons.prems Suc have "k' < length xs" "p (xs ! k')" by auto
    moreover from Cons.prems Suc have "\<forall>j < k'. \<not> p (xs ! j)" by auto
    ultimately show ?thesis using Cons.IH [of k' "Suc i"] Suc by simp
  qed
qed

text \<open>
  C7. \<open>findAndUpdateInArray\<close> returns true exactly when some element of the array
  satisfies the predicate. Without such an element the updater is not invoked and no
  event is emitted. With one, the updater is invoked once, on the first satisfying
  element; exactly one update event, at that element's index and with the updater's
  payload, is emitted when the updater returns a payload and none when it returns the
  no-op sentinel; the boolean is true in both cases.
\<close>

theorem findAndUpdateInArray_contract:
  fixes predicate :: "'a \<Rightarrow> bool" and updater :: "'a \<Rightarrow> 'p option"
    and array :: "'a list" and observable :: "('a, 'p) list_event list"
  defines "res \<equiv> findAndUpdateInArray predicate array observable updater"
  shows "fst res = (\<exists>x \<in> set array. predicate x)
    \<and> (\<not> (\<exists>x \<in> set array. predicate x) \<longrightarrow> res = (False, observable, []))
    \<and> (\<forall>i. i < length array \<and> predicate (array ! i) \<and> (\<forall>j < i. \<not> predicate (array ! j))
           \<longrightarrow> res = (True,
                 observable @ (case updater (array ! i) of
                                 None \<Rightarrow> []
                               | Some p \<Rightarrow> [ListUpdate i (array ! i) p]),
                 [array ! i]))"
proof -
  have none: "res = (False, observable, [])" if "\<not> (\<exists>x \<in> set array. predicate x)"
    using that findIndex_from_none [of array predicate 0]
    by (simp add: res_def findAndUpdateInArray_def findIndex_def)
  have first: "res = (True,
                 observable @ (case updater (array ! i) of
                                 None \<Rightarrow> []
                               | Some p \<Rightarrow> [ListUpdate i (array ! i) p]),
                 [array ! i])"
    if "i < length array" "predicate (array ! i)" "\<forall>j < i. \<not> predicate (array ! j)" for i
    using findIndex_from_first [OF that, of 0]
    by (simp add: res_def findAndUpdateInArray_def findIndex_def emit_def Let_def
        split: option.splits)
  have "fst res = (\<exists>x \<in> set array. predicate x)"
  proof (cases "\<exists>x \<in> set array. predicate x")
    case False
    with none show ?thesis by simp
  next
    case True
    then obtain k where k: "k < length array" "predicate (array ! k)"
      by (auto simp: in_set_conv_nth)
    define m where "m = (LEAST n. n < length array \<and> predicate (array ! n))"
    have m: "m < length array \<and> predicate (array ! m)"
      unfolding m_def
      using k LeastI [of "\<lambda>n. n < length array \<and> predicate (array ! n)" k] by simp
    have "\<forall>j < m. \<not> predicate (array ! j)"
    proof (intro allI impI notI)
      fix j assume "j < m" "predicate (array ! j)"
      with m have "j < length array \<and> predicate (array ! j)" by simp
      then have "m \<le> j" unfolding m_def by (rule Least_le)
      with \<open>j < m\<close> show False by simp
    qed
    with m first [of m] True show ?thesis by simp
  qed
  with none first show ?thesis by blast
qed

text \<open>
  The scenario of the list tests: the cache \<open>[1, 9, 16]\<close>, the predicate \<open>n = 9\<close>, once
  with an updater that returns a payload and once with one that declines.
\<close>

theorem findAndUpdateInArray_contract_witness:
  "findAndUpdateInArray (\<lambda>n. n = (9::int)) [1, 9, 16] [] (\<lambda>n. Some ''param'')
     = (True, [ListUpdate 1 9 ''param''], [9])
   \<and> findAndUpdateInArray (\<lambda>n. n = (9::int)) [1, 9, 16] [] (\<lambda>n. (None :: string option))
     = (True, [], [9])
   \<and> findAndUpdateInArray (\<lambda>n. n = (100::int)) [1, 9, 16] [] (\<lambda>n. Some ''param'')
     = (False, [], [])"
  using findAndUpdateInArray_contract [of "\<lambda>n. n = (9::int)" "[1, 9, 16]" "[]" "\<lambda>n. Some ''param''"]
    findAndUpdateInArray_contract [of "\<lambda>n. n = (9::int)" "[1, 9, 16]" "[]" "\<lambda>n. (None :: string option)"]
    findAndUpdateInArray_contract [of "\<lambda>n. n = (100::int)" "[1, 9, 16]" "[]" "\<lambda>n. Some ''param''"]
  by (simp add: findAndUpdateInArray_def findIndex_def emit_def)

subsection \<open>sortedIndex\<close>

text \<open>
  Along an array ordered by a consistent comparator, the sign of \<open>comparator v x\<close>
  only falls: once negative it stays negative, and where it is positive it was positive
  before.
\<close>

lemma comparator_sign_monotone:
  assumes cc: "consistent_comparator cmp" and srt: "sorted_by cmp xs"
    and ij: "i < j" "j < length xs"
  shows "(cmp v (xs ! i) < 0 \<longrightarrow> cmp v (xs ! j) < 0)
       \<and> (cmp v (xs ! j) > 0 \<longrightarrow> cmp v (xs ! i) > 0)"
proof -
  have le: "cmp (xs ! i) (xs ! j) \<le> 0"
    using srt ij by (simp add: sorted_by_def sorted_wrt_iff_nth_less)
  have anti: "(cmp x y < 0) = (cmp y x > 0)" for x y
    using cc unfolding consistent_comparator_def by blast
  have trans: "cmp x y \<le> 0 \<Longrightarrow> cmp y z \<le> 0 \<Longrightarrow> cmp x z \<le> 0" for x y z
    using cc unfolding consistent_comparator_def by blast
  have "cmp v (xs ! j) < 0" if lt: "cmp v (xs ! i) < 0"
  proof (rule ccontr)
    assume "\<not> cmp v (xs ! j) < 0"
    then have "cmp (xs ! j) v \<le> 0" using anti [of v "xs ! j"] by simp
    with le have "cmp (xs ! i) v \<le> 0" by (rule trans)
    with lt anti [of v "xs ! i"] show False by simp
  qed
  moreover have "cmp v (xs ! i) > 0" if gt: "cmp v (xs ! j) > 0"
  proof (rule ccontr)
    assume "\<not> cmp v (xs ! i) > 0"
    then have "cmp v (xs ! i) \<le> 0" by simp
    from this le have "cmp v (xs ! j) \<le> 0" by (rule trans)
    with gt show False by simp
  qed
  ultimately show ?thesis by blast
qed

text \<open>
  The loop, by induction on \<open>high - low\<close>: it returns, and the index it returns
  splits the array into elements not above and elements not below the value.
\<close>

lemma sortedIndex_loop_correct:
  assumes mono: "\<And>i j. i < j \<Longrightarrow> j < length array \<Longrightarrow>
                   (cmp v (array ! i) < 0 \<longrightarrow> cmp v (array ! j) < 0)
                 \<and> (cmp v (array ! j) > 0 \<longrightarrow> cmp v (array ! i) > 0)"
    and len: "length array < 2 ^ 31"
    and bounds: "low \<le> high" "high \<le> length array"
    and below: "\<forall>j < low. cmp v (array ! j) > 0"
    and above: "\<forall>j. high \<le> j \<and> j < length array \<longrightarrow> cmp v (array ! j) < 0"
  shows "\<exists>i. sortedIndex_loop cmp array v low high = Some i
           \<and> i \<le> length array
           \<and> (\<forall>j < i. cmp v (array ! j) \<ge> 0)
           \<and> (\<forall>j. i \<le> j \<and> j < length array \<longrightarrow> cmp v (array ! j) \<le> 0)
           \<and> ((\<exists>j < length array. cmp v (array ! j) = 0)
                \<longrightarrow> i < length array \<and> cmp v (array ! i) = 0)"
  using bounds below above
proof (induction "high - low" arbitrary: low high rule: less_induct)
  case less
  show ?case
  proof (cases "low < high")
    case False
    with less.prems have eq: "low = high" by simp
    have none: "cmp v (array ! j) \<noteq> 0" if "j < length array" for j
    proof (cases "j < low")
      case True
      with less.prems(3) have "cmp v (array ! j) > 0" by blast
      then show ?thesis by simp
    next
      case False
      with eq that have "high \<le> j \<and> j < length array" by simp
      with less.prems(4) have "cmp v (array ! j) < 0" by blast
      then show ?thesis by simp
    qed
    have "sortedIndex_loop cmp array v low high = Some high"
      using False by (subst sortedIndex_loop.simps) simp
    moreover have "\<forall>j < high. cmp v (array ! j) \<ge> 0"
      using less.prems(3) eq by force
    moreover have "\<forall>j. high \<le> j \<and> j < length array \<longrightarrow> cmp v (array ! j) \<le> 0"
      using less.prems(4) by force
    ultimately show ?thesis using less.prems(2) none by auto
  next
    case True
    define mid where "mid = ((low + high) mod 2 ^ 32) div 2"
    have "low + high < 2 ^ 32" using True less.prems(2) len by simp
    then have mid: "mid = (low + high) div 2" by (simp add: mid_def)
    have mid_bounds: "low \<le> mid" "mid < high" using True mid by simp_all
    then have mid_len: "mid < length array" using less.prems(2) by simp
    consider (gt) "cmp v (array ! mid) > 0" | (lt) "cmp v (array ! mid) < 0"
      | (eq) "cmp v (array ! mid) = 0" by linarith
    then show ?thesis
    proof cases
      case gt
      have step: "sortedIndex_loop cmp array v low high
                    = sortedIndex_loop cmp array v (mid + 1) high"
        using True gt by (subst sortedIndex_loop.simps) (simp add: mid_def Let_def)
      have below': "\<forall>j < mid + 1. cmp v (array ! j) > 0"
      proof (intro allI impI)
        fix j assume "j < mid + 1"
        then consider "j = mid" | "j < mid" by linarith
        then show "cmp v (array ! j) > 0"
          using gt mono [of j mid] mid_len by cases simp_all
      qed
      have "high - (mid + 1) < high - low" using mid_bounds by simp
      from less.hyps [OF this _ less.prems(2) below' less.prems(4)] mid_bounds step
      show ?thesis by simp
    next
      case lt
      have step: "sortedIndex_loop cmp array v low high
                    = sortedIndex_loop cmp array v low mid"
        using True lt by (subst sortedIndex_loop.simps) (simp add: mid_def Let_def)
      have above': "\<forall>j. mid \<le> j \<and> j < length array \<longrightarrow> cmp v (array ! j) < 0"
      proof (intro allI impI)
        fix j assume j: "mid \<le> j \<and> j < length array"
        then consider "j = mid" | "mid < j" by linarith
        then show "cmp v (array ! j) < 0"
          using lt mono [of mid j] j by cases simp_all
      qed
      have "mid - low < high - low" using mid_bounds by simp
      from less.hyps [OF this mid_bounds(1) _ less.prems(3) above'] mid_len step
      show ?thesis by simp
    next
      case eq
      have "sortedIndex_loop cmp array v low high = sortedIndex_loop cmp array v mid mid"
        using True eq by (subst sortedIndex_loop.simps) (simp add: mid_def Let_def)
      also have "\<dots> = Some mid"
        by (subst sortedIndex_loop.simps) simp
      finally have res: "sortedIndex_loop cmp array v low high = Some mid" .
      have "\<forall>j < mid. cmp v (array ! j) \<ge> 0"
      proof (intro allI impI)
        fix j assume "j < mid"
        with mono [of j mid] mid_len eq show "cmp v (array ! j) \<ge> 0" by force
      qed
      moreover have "\<forall>j. mid \<le> j \<and> j < length array \<longrightarrow> cmp v (array ! j) \<le> 0"
      proof (intro allI impI)
        fix j assume j: "mid \<le> j \<and> j < length array"
        then consider "j = mid" | "mid < j" by linarith
        then show "cmp v (array ! j) \<le> 0"
          using eq mono [of mid j] j by cases force+
      qed
      ultimately show ?thesis using res eq mid_len by auto
    qed
  qed
qed

text \<open>
  C6, as amended. For every array of fewer than \<open>2^31\<close> elements ordered by a
  consistent comparator and every value, \<open>sortedIndex\<close> returns an index at which the
  value may be inserted while keeping the array ordered; when the array contains elements
  comparing equal to the value, the index returned is that of one of them (the first
  one the bisection probes), which need not be the leftmost.
\<close>

theorem sortedIndex_insertion_point:
  assumes cc: "consistent_comparator comparator"
    and srt: "sorted_by comparator array"
    and len: "length array < 2 ^ 31"
  shows "\<exists>i. sortedIndex array v comparator = Some i
           \<and> i \<le> length array
           \<and> sorted_by comparator (take i array @ v # drop i array)
           \<and> ((\<exists>j < length array. comparator v (array ! j) = 0)
                \<longrightarrow> i < length array \<and> comparator v (array ! i) = 0)"
proof -
  have mono: "(comparator v (array ! i) < 0 \<longrightarrow> comparator v (array ! j) < 0)
            \<and> (comparator v (array ! j) > 0 \<longrightarrow> comparator v (array ! i) > 0)"
    if "i < j" "j < length array" for i j
    using comparator_sign_monotone [OF cc srt that] .
  from sortedIndex_loop_correct [of array comparator v 0 "length array", OF mono len]
  obtain i where i: "sortedIndex array v comparator = Some i" "i \<le> length array"
    and before: "\<forall>j < i. comparator v (array ! j) \<ge> 0"
    and after: "\<forall>j. i \<le> j \<and> j < length array \<longrightarrow> comparator v (array ! j) \<le> 0"
    and hit: "(\<exists>j < length array. comparator v (array ! j) = 0)
                \<longrightarrow> i < length array \<and> comparator v (array ! i) = 0"
    unfolding sortedIndex_def by auto
  have anti: "(comparator x y < 0) = (comparator y x > 0)" for x y
    using cc unfolding consistent_comparator_def by blast
  have parts: "sorted_wrt (\<lambda>x y. comparator x y \<le> 0) (take i array)
             \<and> sorted_wrt (\<lambda>x y. comparator x y \<le> 0) (drop i array)
             \<and> (\<forall>x \<in> set (take i array). \<forall>y \<in> set (drop i array). comparator x y \<le> 0)"
    using srt sorted_wrt_append [of "\<lambda>x y. comparator x y \<le> 0" "take i array" "drop i array"]
    by (simp add: sorted_by_def)
  have left: "comparator x v \<le> 0" if "x \<in> set (take i array)" for x
  proof -
    from that i(2) obtain j where j: "j < i" "x = array ! j"
      by (auto simp: in_set_conv_nth)
    with before have "\<not> comparator v x < 0" by force
    with anti [of v x] show ?thesis by simp
  qed
  have right: "comparator v y \<le> 0" if "y \<in> set (drop i array)" for y
  proof -
    from that obtain k where k: "k < length array - i" "y = array ! (i + k)"
      by (auto simp: in_set_conv_nth)
    with after show ?thesis by simp
  qed
  have "sorted_by comparator (take i array @ v # drop i array)"
    using parts left right by (auto simp: sorted_by_def sorted_wrt_append)
  with i hit show ?thesis by blast
qed

theorem sortedIndex_insertion_point_witness:
  "consistent_comparator (\<lambda>x y :: int. x - y)
   \<and> sorted_by (\<lambda>x y. x - y) [1, 1, 1 :: int]
   \<and> length [1, 1, 1 :: int] < 2 ^ 31
   \<and> (\<exists>i. sortedIndex [1, 1, 1 :: int] 1 (\<lambda>x y. x - y) = Some i
         \<and> i \<le> length [1, 1, 1 :: int]
         \<and> sorted_by (\<lambda>x y. x - y) (take i [1, 1, 1] @ 1 # drop i [1, 1, 1])
         \<and> i < length [1, 1, 1 :: int] \<and> [1, 1, 1 :: int] ! i - 1 = 0)"
proof -
  have cc: "consistent_comparator (\<lambda>x y :: int. x - y)"
    by (auto simp: consistent_comparator_def)
  have srt: "sorted_by (\<lambda>x y. x - y) [1, 1, 1 :: int]"
    by (simp add: sorted_by_def)
  have len: "length [1, 1, 1 :: int] < 2 ^ 31" by simp
  have ex: "\<exists>j < length [1, 1, 1 :: int]. (1 :: int) - [1, 1, 1] ! j = 0"
    by (rule exI [of _ 0]) simp
  from sortedIndex_insertion_point [OF cc srt len, of 1] ex
  show ?thesis using cc srt by auto
qed

text \<open>
  C6 as stated fails: in \<open>[1, 1, 1]\<close> the leftmost insertion index of 1 is 0, but the
  first probe, at index 1, compares equal and is returned.
\<close>

theorem sortedIndex_not_leftmost:
  "sorted_by (\<lambda>x y. x - y) [1, 1, 1 :: int]
   \<and> sortedIndex [1, 1, 1 :: int] 1 (\<lambda>x y. x - y) = Some 1
   \<and> leftmost_insertion_index (\<lambda>x y. x - y) [1, 1, 1 :: int] 1 = 0"
  by (simp add: sorted_by_def sortedIndex_def sortedIndex_loop.simps leftmost_insertion_index_def)

section \<open>Properties of BaseObservable\<close>

text \<open>
  C5. The claim is that \<open>onSubscribeFirst\<close> runs once per transition of the handler set
  from none to one handler, \<open>onUnsubscribeLast\<close> once per transition from one to none,
  and that unsubscribing the same handler a second time does nothing. In the source the
  second call deletes nothing, finds the size still zero and runs \<open>onUnsubscribeLast\<close>
  again: after subscribing a handler and calling the returned closure twice the hook has
  run twice, although the set became empty once. Likewise, subscribing a handler that is
  already the only one finds the size still one and runs \<open>onSubscribeFirst\<close> again.
\<close>

theorem BaseObservable_double_unsubscribe:
  "firstUnsubscribeCalls
     (BaseObservable_unsubscribe (Some h)
        (BaseObservable_unsubscribe (Some h)
           (BaseObservable_subscribe h BaseObservable_new))) = 2
   \<and> firstUnsubscribeCalls
       (BaseObservable_unsubscribe (Some h) (BaseObservable_subscribe h BaseObservable_new)) = 1
   \<and> handlers
       (BaseObservable_unsubscribe (Some h) (BaseObservable_subscribe h BaseObservable_new)) = {}
   \<and> firstSubscribeCalls
       (BaseObservable_subscribe h (BaseObservable_subscribe h BaseObservable_new)) = 2"
  by (simp add: BaseObservable_unsubscribe_def BaseObservable_subscribe_def BaseObservable_new_def
      BaseObservable_onSubscribeFirst_def BaseObservable_onUnsubscribeLast_def)

section \<open>Properties of ApplyMap\<close>

lemma ApplyMap_applyOnce_actions:
  "am_actions (ApplyMap_applyOnce src cb am)
     = am_actions am @ map (\<lambda>(key, v). ApplyCall cb key v None) src"
  by (induction src cb am rule: ApplyMap_applyOnce.induct) simp_all

lemma ApplyMap_applyOnce_rest:
  "am_subscription (ApplyMap_applyOnce src cb am) = am_subscription am
   \<and> am_apply (ApplyMap_applyOnce src cb am) = am_apply am"
  by (induction src cb am rule: ApplyMap_applyOnce.induct) simp_all

text \<open>
  C10. On its first subscriber an \<open>ApplyMap\<close> with a callback first subscribes to its
  source and then invokes the callback once for every entry of the source, in the
  source's order and without \<open>params\<close>, before \<open>onSubscribeFirst\<close> returns; without a
  callback it only subscribes.
\<close>

theorem ApplyMap_onSubscribeFirst_applies_once:
  "(am_apply am = Some apply \<longrightarrow>
      am_actions (ApplyMap_onSubscribeFirst src am)
        = am_actions am @ SourceSubscribe # map (\<lambda>(key, v). ApplyCall apply key v None) src)
   \<and> (am_apply am = None \<longrightarrow>
      am_actions (ApplyMap_onSubscribeFirst src am) = am_actions am @ [SourceSubscribe])
   \<and> am_subscription (ApplyMap_onSubscribeFirst src am)"
  by (cases "am_apply am")
     (simp_all add: ApplyMap_onSubscribeFirst_def ApplyMap_applyOnce_actions ApplyMap_applyOnce_rest)

theorem ApplyMap_onSubscribeFirst_applies_once_witness:
  "am_actions (ApplyMap_onSubscribeFirst [(''a'', 1 :: int), (''b'', 2)]
                 (ApplyMap_new (Some ''f'') :: (string, string, int, unit) ApplyMap))
     = [SourceSubscribe, ApplyCall ''f'' ''a'' 1 None, ApplyCall ''f'' ''b'' 2 None]
   \<and> am_actions (ApplyMap_onSubscribeFirst [(''a'', 1 :: int), (''b'', 2)]
                 (ApplyMap_new None :: (string, string, int, unit) ApplyMap))
     = [SourceSubscribe]"
  using ApplyMap_onSubscribeFirst_applies_once
          [of "ApplyMap_new (Some ''f'') :: (string, string, int, unit) ApplyMap" "''f''"
              "[(''a'', 1 :: int), (''b'', 2)]"]
        ApplyMap_onSubscribeFirst_applies_once
          [of "ApplyMap_new None :: (string, string, int, unit) ApplyMap" "''f''"
              "[(''a'', 1 :: int), (''b'', 2)]"]
  by (simp add: ApplyMap_new_def)

section \<open>Properties of FilteredList\<close>

text \<open>
  What does hold without a filter: every event is forwarded with the source's own
  indices, and the mask stays unallocated.
\<close>

lemma FilteredList_unfiltered_passthrough:
  assumes "fl_filter fl = None" "fl_included fl = None"
  shows "FilteredList_onAdd src fl idx v = FilteredList_emit fl (ListAdd idx v)"
    and "FilteredList_onRemove src fl idx v = Inr (FilteredList_emit fl (ListRemove idx v))"
    and "FilteredList_onUpdate fl idx v params = Inr (FilteredList_emit fl (ListUpdate idx v params))"
    and "FilteredList_onMove src fl from to v = Inr (FilteredList_emit fl (ListMove from to v))"
    and "FilteredList_onReset src fl = FilteredList_emit fl ListReset"
  using assms
  by (simp_all add: FilteredList_onAdd_def FilteredList_onRemove_def FilteredList_onUpdate_def
      FilteredList_onMove_def FilteredList_onReset_def reapplyFilter_def translateIndex_def
      FilteredList_emit_def)

text \<open>
  C9. The claim is that a \<open>FilteredList\<close> without a filter, once subscribed, is a
  passthrough whose length is the source's length and whose iteration yields the
  source's elements. The mask does stay unallocated, but \<open>length\<close> and the iterator
  dereference it all the same: over the source \<open>[1]\<close> both throw a \<open>TypeError\<close>.
\<close>

theorem FilteredList_unfiltered_length_throws:
  "fl_included (FilteredList_onSubscribeFirst [1 :: int] (FilteredList_new None)) = None
   \<and> FilteredList_length (FilteredList_onSubscribeFirst [1 :: int] (FilteredList_new None))
       = Inl TypeError
   \<and> FilteredList_elements [1 :: int] (FilteredList_onSubscribeFirst [1] (FilteredList_new None))
       = Inl TypeError"
  by (simp add: FilteredList_length_def FilteredList_elements_def FilteredList_iterator_def
      FilteredList_onSubscribeFirst_def FilteredList_new_def reapplyFilter_def
      FilterIterator_drain.simps FilterIterator_next.simps)

text \<open>
  What does hold with a filter: for a predicate of the value alone, the mask mirrors the
  source after the first subscription and after every valid add, remove, update and move,
  and then \<open>length\<close> and iteration agree with the source filtered by the predicate.
\<close>

lemma reapplyFilter_loop_mask:
  "i + length rest = length m \<Longrightarrow>
   fst (reapplyFilter_loop (\<lambda>v i. P v) hadOld silent rest i t (m, log)) = take i m @ map P rest"
proof (induction rest arbitrary: i t m log)
  case Nil
  then show ?case by simp
next
  case (Cons v rest)
  from Cons.prems have i: "i < length m" by simp
  let ?m1 = "m[i := P v]"
  have "Suc i + length rest = length ?m1" using Cons.prems by simp
  note IH = Cons.IH [OF this]
  have "take (Suc i) ?m1 = take i m @ [P v]"
    using i by (simp add: take_Suc_conv_app_nth)
  with IH show ?case using i by (simp add: mask_set_def Let_def)
qed

lemma reapplyFilter_included:
  assumes "fl_filter fl = Some (\<lambda>v i. P v)"
    and "fl_included fl = None \<or> fl_included fl = Some (map P src)"
  shows "fl_included (reapplyFilter src silent fl) = Some (map P src)"
    and "fl_filter (reapplyFilter src silent fl) = fl_filter fl"
proof -
  define m0 where "m0 = (case fl_included fl of Some m \<Rightarrow> m | None \<Rightarrow> replicate (length src) False)"
  have len: "0 + length src = length m0"
    using assms(2) by (auto simp: m0_def)
  obtain m' log' where loop:
    "reapplyFilter_loop (\<lambda>v i. P v) (fl_included fl \<noteq> None) silent src 0 0 (m0, fl_emitted fl) = (m', log')"
    by (cases "reapplyFilter_loop (\<lambda>v i. P v) (fl_included fl \<noteq> None) silent src 0 0 (m0, fl_emitted fl)")
  from reapplyFilter_loop_mask [OF len, of P "fl_included fl \<noteq> None" silent 0 "fl_emitted fl"] loop
  have "m' = map P src" by simp
  with loop show "fl_included (reapplyFilter src silent fl) = Some (map P src)"
    using assms(1) by (simp add: reapplyFilter_def m0_def Let_def)
  from loop show "fl_filter (reapplyFilter src silent fl) = fl_filter fl"
    using assms(1) by (simp add: reapplyFilter_def m0_def Let_def)
qed

lemma count_included_filter:
  "count_included (map P xs) n = n + length (filter P xs)"
  by (induction xs arbitrary: n) simp_all

lemma FilterIterator_drain_filter:
  "fi_included it = Some m \<Longrightarrow>
   (\<forall>k < length (fi_sourceIterator it). mask_get m (fi_index it + k) = P (fi_sourceIterator it ! k))
   \<Longrightarrow> FilterIterator_drain it = Inr (filter P (fi_sourceIterator it))"
proof (induction "fi_sourceIterator it" arbitrary: it)
  case Nil
  then have "FilterIterator_next it = Inr (None, it)"
    by (simp add: FilterIterator_next.simps [of it])
  with Nil show ?case by (simp add: FilterIterator_drain.simps [of it])
next
  case (Cons v rest)
  let ?it1 = "it\<lparr>fi_sourceIterator := rest, fi_index := fi_index it + 1\<rparr>"
  have src: "fi_sourceIterator it = v # rest" using Cons.hyps(2) by simp
  have here: "mask_get m (fi_index it) = P v"
    using Cons.prems(2) src by (auto dest: spec [of _ 0])
  have later: "\<forall>k < length (fi_sourceIterator ?it1).
                 mask_get m (fi_index ?it1 + k) = P (fi_sourceIterator ?it1 ! k)"
  proof (intro allI impI)
    fix k assume "k < length (fi_sourceIterator ?it1)"
    then have "Suc k < length (fi_sourceIterator it)" using src by simp
    with Cons.prems(2) have "mask_get m (fi_index it + Suc k) = P (fi_sourceIterator it ! Suc k)"
      by blast
    with src show "mask_get m (fi_index ?it1 + k) = P (fi_sourceIterator ?it1 ! k)" by simp
  qed
  have IH: "FilterIterator_drain ?it1 = Inr (filter P rest)"
    using Cons.hyps(1) [of ?it1] Cons.prems(1) later by simp
  show ?case
  proof (cases "P v")
    case True
    with here src Cons.prems(1) have "FilterIterator_next it = Inr (Some v, ?it1)"
      by (simp add: FilterIterator_next.simps [of it])
    with IH True src show ?thesis by (simp add: FilterIterator_drain.simps [of it])
  next
    case False
    with here src Cons.prems(1) have nxt: "FilterIterator_next it = FilterIterator_next ?it1"
      by (simp add: FilterIterator_next.simps [of it])
    have "FilterIterator_drain it = FilterIterator_drain ?it1"
      by (subst FilterIterator_drain.simps [of it], subst nxt,
          subst FilterIterator_drain.simps [of ?it1, symmetric]) (rule refl)
    with IH False src show ?thesis by simp
  qed
qed

lemma FilteredList_emit_fields [simp]:
  "fl_filter (FilteredList_emit fl e) = fl_filter fl"
  "fl_included (FilteredList_emit fl e) = fl_included fl"
  by (simp_all add: FilteredList_emit_def)

lemma reapplyFilter_mirrors:
  "mask_mirrors P src fl \<Longrightarrow> mask_mirrors P src (reapplyFilter src silent fl)"
  using reapplyFilter_included [of fl P src silent]
  by (simp add: mask_mirrors_def)

lemma deliver_mirrors:
  assumes inv: "mask_mirrors P src fl" and ok: "valid_change src c"
  shows "\<exists>fl'. deliver src fl c = Inr fl' \<and> mask_mirrors P (apply_change src c) fl'"
proof (cases c)
  case (Added idx v)
  let ?src' = "take idx src @ [v] @ drop idx src"
  let ?fl1 = "fl\<lparr>fl_included := Some (splice_insert (map P src) idx (P v))\<rparr>"
  have m: "mask_mirrors P ?src' ?fl1"
    using inv by (simp add: mask_mirrors_def splice_insert_def take_map drop_map)
  have "FilteredList_onAdd ?src' fl idx v
          = (if \<not> P v then ?fl1
             else reapplyFilter ?src' False
                    (FilteredList_emit ?fl1 (ListAdd (translateIndex ?fl1 idx) v)))"
    using inv by (simp add: FilteredList_onAdd_def mask_mirrors_def Let_def)
  moreover have "mask_mirrors P ?src' (FilteredList_emit ?fl1 e)" for e
    using m by (simp add: mask_mirrors_def)
  then have "mask_mirrors P ?src' (reapplyFilter ?src' False (FilteredList_emit ?fl1 e))" for e
    by (rule reapplyFilter_mirrors)
  ultimately have "mask_mirrors P ?src' (FilteredList_onAdd ?src' fl idx v)"
    using m by (cases "P v") simp_all
  with Added show ?thesis by simp
next
  case (Removed idx)
  let ?src' = "take idx src @ drop (Suc idx) src"
  let ?fl1 = "fl\<lparr>fl_included := Some (splice_remove (map P src) idx)\<rparr>"
  have m: "mask_mirrors P ?src' ?fl1"
    using inv by (simp add: mask_mirrors_def splice_remove_def take_map drop_map)
  then have m': "mask_mirrors P ?src' (FilteredList_emit ?fl1 e)" for e
    by (simp add: mask_mirrors_def)
  have "\<exists>fl2. FilteredList_onRemove ?src' fl idx (src ! idx) = Inr (reapplyFilter ?src' False fl2)
          \<and> mask_mirrors P ?src' fl2"
    using inv m m' by (auto simp: FilteredList_onRemove_def mask_mirrors_def Let_def)
  with Removed reapplyFilter_mirrors show ?thesis by fastforce
next
  case (Updated idx v)
  from ok Updated have idx: "idx < length src" by simp
  let ?fl1 = "fl\<lparr>fl_included := Some (mask_set (map P src) idx (P v))\<rparr>"
  have "mask_set (map P src) idx (P v) = map P (src[idx := v])"
    using idx by (simp add: mask_set_def map_update)
  then have "mask_mirrors P (src[idx := v]) (?fl1\<lparr>fl_emitted := ev\<rparr>)" for ev
    using inv by (simp add: mask_mirrors_def)
  moreover have "\<exists>ev. FilteredList_onUpdate fl idx v None = Inr (?fl1\<lparr>fl_emitted := ev\<rparr>)"
    using inv by (auto simp: FilteredList_onUpdate_def mask_mirrors_def Let_def)
  ultimately show ?thesis using Updated by auto
next
  case (Moved fromIdx toIdx)
  let ?rest = "take fromIdx src @ drop (Suc fromIdx) src"
  let ?src' = "take toIdx ?rest @ [src ! fromIdx] @ drop toIdx ?rest"
  let ?fl1 = "fl\<lparr>fl_included :=
                 Some (splice_insert (splice_remove (map P src) fromIdx) toIdx (P (src ! fromIdx)))\<rparr>"
  have m: "mask_mirrors P ?src' ?fl1"
    using inv
    by (simp add: mask_mirrors_def splice_insert_def splice_remove_def take_map drop_map)
  then have m': "mask_mirrors P ?src' (FilteredList_emit ?fl1 e)" for e
    by (simp add: mask_mirrors_def)
  have "\<exists>fl2. FilteredList_onMove ?src' fl fromIdx toIdx (src ! fromIdx) = Inr (reapplyFilter ?src' False fl2)
          \<and> mask_mirrors P ?src' fl2"
    using inv m m' by (auto simp: FilteredList_onMove_def mask_mirrors_def Let_def)
  with Moved reapplyFilter_mirrors show ?thesis by (fastforce simp: Let_def)
qed

lemma deliver_all_mirrors:
  "mask_mirrors P src fl \<Longrightarrow> valid_changes src cs \<Longrightarrow>
     \<exists>src' fl'. deliver_all src fl cs = Inr (src', fl') \<and> mask_mirrors P src' fl'"
proof (induction cs arbitrary: src fl)
  case Nil
  then show ?case by simp
next
  case (Cons c cs)
  from Cons.prems have "valid_change src c" "valid_changes (apply_change src c) cs" by simp_all
  from deliver_mirrors [OF Cons.prems(1) this(1)]
  obtain fl1 where fl1: "deliver src fl c = Inr fl1" "mask_mirrors P (apply_change src c) fl1"
    by blast
  from Cons.IH [OF fl1(2) \<open>valid_changes (apply_change src c) cs\<close>] fl1(1)
  show ?case by simp
qed

lemma mask_mirrors_length_elements:
  assumes "mask_mirrors P src fl"
  shows "FilteredList_length fl = Inr (length (filter P src))"
    and "FilteredList_elements src fl = Inr (filter P src)"
proof -
  from assms have inc: "fl_included fl = Some (map P src)"
    by (simp add: mask_mirrors_def)
  then show "FilteredList_length fl = Inr (length (filter P src))"
    by (simp add: FilteredList_length_def count_included_filter)
  let ?it = "FilteredList_iterator src fl"
  have "fi_included ?it = Some (map P src)"
    using inc by (simp add: FilteredList_iterator_def)
  moreover have "\<forall>k < length (fi_sourceIterator ?it).
                   mask_get (map P src) (fi_index ?it + k) = P (fi_sourceIterator ?it ! k)"
    by (simp add: FilteredList_iterator_def mask_get_def)
  ultimately have "FilterIterator_drain ?it = Inr (filter P (fi_sourceIterator ?it))"
    by (rule FilterIterator_drain_filter)
  then show "FilteredList_elements src fl = Inr (filter P src)"
    by (simp add: FilteredList_elements_def FilteredList_iterator_def)
qed

lemma FilteredList_onSubscribeFirst_mirrors:
  "mask_mirrors P src (FilteredList_onSubscribeFirst src (FilteredList_new (Some (\<lambda>v i. P v))))"
  using reapplyFilter_included
          [of "(FilteredList_new (Some (\<lambda>v i. P v)))\<lparr>fl_subscription := True\<rparr>" P src True]
  by (simp add: mask_mirrors_def FilteredList_onSubscribeFirst_def FilteredList_new_def)

lemma FilteredList_consistent_without_reset:
  assumes "valid_changes src cs"
  shows "\<exists>src' fl'.
           deliver_all src (FilteredList_onSubscribeFirst src (FilteredList_new (Some (\<lambda>v i. P v)))) cs
             = Inr (src', fl')
           \<and> FilteredList_length fl' = Inr (length (filter P src'))
           \<and> FilteredList_elements src' fl' = Inr (filter P src')"
  using deliver_all_mirrors [OF FilteredList_onSubscribeFirst_mirrors assms]
    mask_mirrors_length_elements by blast

text \<open>
  C3. The claim is that with a filter and a subscriber, after any sequence of source
  events, \<open>length\<close> is the number of source elements satisfying the predicate and
  iteration yields those elements. A reset that shrinks the source breaks it:
  \<open>_reapplyFilter\<close> keeps the old mask and only overwrites the positions the new source
  has. With the predicate that accepts everything, the source \<open>[1, 2, 3]\<close> and a reset
  to the empty source, \<open>length\<close> is still 3 while iteration yields nothing.
\<close>

theorem FilteredList_reset_stale_mask:
  "FilteredList_length
     (FilteredList_onReset []
        (FilteredList_onSubscribeFirst [1, 2, 3 :: int] (FilteredList_new (Some (\<lambda>v i. True)))))
     = Inr 3
   \<and> FilteredList_elements []
       (FilteredList_onReset []
          (FilteredList_onSubscribeFirst [1, 2, 3 :: int] (FilteredList_new (Some (\<lambda>v i. True)))))
     = Inr []"
  by (simp add: FilteredList_length_def FilteredList_elements_def FilteredList_iterator_def
      FilteredList_onSubscribeFirst_def FilteredList_onReset_def FilteredList_emit_def
      FilteredList_new_def reapplyFilter_def mask_set_def mask_get_def
      FilterIterator_drain.simps FilterIterator_next.simps)

text \<open>
  A predicate that uses its index argument goes stale in the same way: \<open>onAdd\<close> returns
  early for an excluded element, so the elements that moved up keep their old mask bits.
  With the predicate \<open>index \<ge> 1\<close> and the source \<open>[10]\<close>, inserting 20 at the front
  leaves 10 at index 1 excluded.
\<close>

lemma FilteredList_index_predicate_stale_mask:
  "FilteredList_length
     (FilteredList_onAdd [20, 10 :: int]
        (FilteredList_onSubscribeFirst [10] (FilteredList_new (Some (\<lambda>v i. 1 \<le> i)))) 0 20)
     = Inr 0
   \<and> FilteredList_elements [20, 10 :: int]
       (FilteredList_onAdd [20, 10 :: int]
          (FilteredList_onSubscribeFirst [10] (FilteredList_new (Some (\<lambda>v i. 1 \<le> i)))) 0 20)
     = Inr []"
  by (simp add: FilteredList_length_def FilteredList_elements_def FilteredList_iterator_def
      FilteredList_onSubscribeFirst_def FilteredList_onAdd_def FilteredList_emit_def
      FilteredList_new_def reapplyFilter_def mask_set_def mask_get_def splice_insert_def
      FilterIterator_drain.simps FilterIterator_next.simps)

section \<open>Properties of JoinedMap\<close>

text \<open>
  C8. The claim is that \<open>get(key)\<close> returns the value of the lowest-indexed source
  containing the key, whatever the value. The loop of \<open>get\<close> tests \<open>if (value)\<close>, so a
  falsy value is passed over: with the sources \<open>{a: 0}\<close> and \<open>{a: 2}\<close> the result is 2
  although the first source holds 0, and with the source \<open>{a: 0}\<close> alone it is
  \<open>undefined\<close>.
\<close>

theorem JoinedMap_get_skips_falsy:
  "JoinedMap_get (\<lambda>s. if s = 0 then [(''a'', Num 0)] else if s = 1 then [(''a'', Num 2)] else [])
     (JoinedMap_new [0, 1]) ''a'' = Some (Num 2)
   \<and> source_get (\<lambda>s. if s = 0 then [(''a'', Num 0)] else if s = 1 then [(''a'', Num 2)] else [])
       0 ''a'' = Some (Num 0)
   \<and> JoinedMap_get (\<lambda>s. if s = 0 then [(''a'', Num 0)] else [])
       (JoinedMap_new [0]) ''a'' = None"
  by (simp add: JoinedMap_get_def JoinedMap_new_def source_get_def)

text \<open>What the two loops over the sources compute.\<close>

lemma isKeyAtSourceOccluded_loop_iff:
  "0 \<le> i \<Longrightarrow>
   isKeyAtSourceOccluded_loop h srcs key index i
     = (\<exists>j. i \<le> j \<and> j < index \<and> source_get h (srcs ! nat j) key \<noteq> None)"
proof (induction h srcs key index i rule: isKeyAtSourceOccluded_loop.induct)
  case (1 h srcs key index i)
  show ?case
  proof (cases "i < index")
    case False
    then show ?thesis
      by (auto simp: isKeyAtSourceOccluded_loop.simps [of h srcs key index i])
  next
    case True
    show ?thesis
    proof (cases "source_get h (srcs ! nat i) key \<noteq> None")
      case here: True
      with True show ?thesis
        by (auto simp: isKeyAtSourceOccluded_loop.simps [of h srcs key index i])
    next
      case nothere: False
      have "(\<exists>j. i \<le> j \<and> j < index \<and> source_get h (srcs ! nat j) key \<noteq> None)
          = (\<exists>j. i + 1 \<le> j \<and> j < index \<and> source_get h (srcs ! nat j) key \<noteq> None)"
      proof
        assume "\<exists>j. i \<le> j \<and> j < index \<and> source_get h (srcs ! nat j) key \<noteq> None"
        then obtain j where j: "i \<le> j" "j < index" "source_get h (srcs ! nat j) key \<noteq> None"
          by blast
        with nothere have "j \<noteq> i" by auto
        with j show "\<exists>j. i + 1 \<le> j \<and> j < index \<and> source_get h (srcs ! nat j) key \<noteq> None"
          by (intro exI [of _ j]) simp
      next
        assume "\<exists>j. i + 1 \<le> j \<and> j < index \<and> source_get h (srcs ! nat j) key \<noteq> None"
        then obtain j where "i + 1 \<le> j" "j < index" "source_get h (srcs ! nat j) key \<noteq> None"
          by blast
        then show "\<exists>j. i \<le> j \<and> j < index \<and> source_get h (srcs ! nat j) key \<noteq> None"
          by (intro exI [of _ j]) simp
      qed
      with "1.IH" [OF True] nothere True "1.prems" show ?thesis
        by (simp add: isKeyAtSourceOccluded_loop.simps [of h srcs key index i])
    qed
  qed
qed

lemma getValueFromOccludedSources_loop_first:
  "i \<le> l \<Longrightarrow> l < length srcs \<Longrightarrow> source_get h (srcs ! l) key = Some v
     \<Longrightarrow> (\<forall>j. i \<le> j \<and> j < l \<longrightarrow> source_get h (srcs ! j) key = None)
     \<Longrightarrow> getValueFromOccludedSources_loop h srcs key i = Some v"
proof (induction h srcs key i rule: getValueFromOccludedSources_loop.induct)
  case (1 h srcs key i)
  show ?case
  proof (cases "i = l")
    case True
    with "1.prems" show ?thesis
      by (subst getValueFromOccludedSources_loop.simps) simp
  next
    case False
    with "1.prems" have lt: "i < l" and none: "source_get h (srcs ! i) key = None" by auto
    from lt "1.prems" have "i < length srcs" by simp
    moreover have "getValueFromOccludedSources_loop h srcs key (i + 1) = Some v"
      using "1.IH" [OF \<open>i < length srcs\<close> none] lt "1.prems" by auto
    ultimately show ?thesis using none
      by (simp add: getValueFromOccludedSources_loop.simps [of h srcs key i])
  qed
qed

text \<open>
  C1. Let \<open>source\<close> be the source at index \<open>i\<close> of a \<open>JoinedMap\<close>, not occluded
  for \<open>key\<close> (no earlier source holds the key), and let the source at index \<open>l > i\<close>
  be the first strictly-later source holding the key, with value \<open>laterValue\<close>. Then an
  add at \<open>source\<close> emits exactly two events, remove(key, laterValue) and then
  add(key, newValue); and a remove at \<open>source\<close> emits exactly two events,
  remove(key, removedValue) and then add(key, laterValue), the value now visible.
\<close>

theorem JoinedMap_occlusion_transition:
  assumes idx: "indexOf (sources jm) source = int i"
    and visible: "\<forall>j < i. source_get h (sources jm ! j) key = None"
    and later: "i < l" "l < length (sources jm)"
      "source_get h (sources jm ! l) key = Some laterValue"
    and first: "\<forall>j. i < j \<and> j < l \<longrightarrow> source_get h (sources jm ! j) key = None"
  shows "emitted (JoinedMap_onAdd h jm source key newValue)
           = emitted jm @ [MapRemove key laterValue, MapAdd key newValue]
       \<and> emitted (JoinedMap_onRemove h jm source key removedValue)
           = emitted jm @ [MapRemove key removedValue, MapAdd key laterValue]"
proof -
  have "\<not> (\<exists>j. 0 \<le> j \<and> j < int i \<and> source_get h (sources jm ! nat j) key \<noteq> None)"
  proof
    assume "\<exists>j. 0 \<le> j \<and> j < int i \<and> source_get h (sources jm ! nat j) key \<noteq> None"
    then obtain j where j: "0 \<le> j" "j < int i" "source_get h (sources jm ! nat j) key \<noteq> None"
      by blast
    then have "nat j < i" by simp
    with visible have "source_get h (sources jm ! nat j) key = None" by simp
    with j(3) show False by simp
  qed
  then have "\<not> isKeyAtSourceOccluded_loop h (sources jm) key (int i) 0"
    by (subst isKeyAtSourceOccluded_loop_iff) simp_all
  then have occ: "\<not> isKeyAtSourceOccluded h jm source key"
    by (simp add: isKeyAtSourceOccluded_def idx)
  have "\<forall>j. Suc i \<le> j \<and> j < l \<longrightarrow> source_get h (sources jm ! j) key = None"
    using first by (simp add: Suc_le_eq)
  moreover have "Suc i \<le> l" using later(1) by simp
  ultimately have "getValueFromOccludedSources_loop h (sources jm) key (Suc i) = Some laterValue"
    using later(2,3) by (rule getValueFromOccludedSources_loop_first [rotated 3])
  then have val: "getValueFromOccludedSources h jm source key = Some laterValue"
    by (simp add: getValueFromOccludedSources_def idx nat_add_distrib)
  show ?thesis
    using occ val
    by (simp add: JoinedMap_onAdd_def JoinedMap_onRemove_def JoinedMap_emitAdd_def
        JoinedMap_emitRemove_def emit_def)
qed

theorem JoinedMap_occlusion_transition_witness:
  "emitted (JoinedMap_onAdd
              (\<lambda>s. if s = 0 then [(''a'', Num 1)] else if s = 1 then [(''a'', Num 2)] else [])
              (JoinedMap_new [0, 1] :: (string, unit) JoinedMap) 0 ''a'' (Num 1))
     = [MapRemove ''a'' (Num 2), MapAdd ''a'' (Num 1)]
   \<and> emitted (JoinedMap_onRemove
              (\<lambda>s. if s = 1 then [(''a'', Num 2)] else [])
              (JoinedMap_new [0, 1] :: (string, unit) JoinedMap) 0 ''a'' (Num 1))
     = [MapRemove ''a'' (Num 1), MapAdd ''a'' (Num 2)]"
proof -
  let ?jm = "JoinedMap_new [0, 1] :: (string, unit) JoinedMap"
  let ?h1 = "\<lambda>s :: ref. if s = 0 then [(''a'', Num 1)] else if s = 1 then [(''a'', Num 2)] else []"
  let ?h2 = "\<lambda>s :: ref. if s = 1 then [(''a'', Num 2)] else []"
  have idx: "indexOf (sources ?jm) 0 = int 0"
    by (simp add: JoinedMap_new_def indexOf_def)
  have len: "(0 :: nat) < 1" "1 < length (sources ?jm)"
    by (simp_all add: JoinedMap_new_def)
  have between: "\<forall>j. (0 :: nat) < j \<and> j < 1 \<longrightarrow> source_get h (sources ?jm ! j) ''a'' = None" for h
    by simp
  have before: "\<forall>j < (0 :: nat). source_get h (sources ?jm ! j) ''a'' = None" for h
    by simp
  have l1: "source_get ?h1 (sources ?jm ! 1) ''a'' = Some (Num 2)"
    by (simp add: JoinedMap_new_def source_get_def)
  have l2: "source_get ?h2 (sources ?jm ! 1) ''a'' = Some (Num 2)"
    by (simp add: JoinedMap_new_def source_get_def)
  from JoinedMap_occlusion_transition [OF idx before len l1 between, of "Num 1" "Num 1"]
       JoinedMap_occlusion_transition [OF idx before len l2 between, of "Num 1" "Num 1"]
  show ?thesis by (simp add: JoinedMap_new_def)
qed

subsection \<open>Iteration\<close>

text \<open>
  One call of \<open>next\<close> yields the first entry, among those still to visit, whose key
  has not been yielded, and a loop over the iterator yields \<open>first_wins\<close> of them.
\<close>

lemma JoinedIterator_next_spec:
  "- 1 \<le> sourceIndex it \<Longrightarrow> JoinedIterator_next it = (r, it') \<Longrightarrow>
     - 1 \<le> sourceIndex it'
     \<and> (case r of
          None \<Rightarrow> first_wins (encounteredKeys it) (JoinedIterator_remaining it) = []
        | Some kv \<Rightarrow>
            first_wins (encounteredKeys it) (JoinedIterator_remaining it)
              = kv # first_wins (encounteredKeys it') (JoinedIterator_remaining it'))"
proof (induction it arbitrary: r it' rule: JoinedIterator_next.induct)
  case (1 it)
  show ?case
  proof (cases "currentIterator it")
    case None
    let ?it1 = "it\<lparr>sourceIndex := sourceIndex it + 1\<rparr>"
    show ?thesis
    proof (cases "int (length (it_sources ?it1)) \<le> sourceIndex ?it1")
      case True
      with "1.prems" None have "r = None" "it' = ?it1"
        by (simp_all add: JoinedIterator_next.simps [of it] Let_def)
      moreover from True have "drop (nat (sourceIndex it + 1)) (it_sources it) = []"
        by simp
      ultimately show ?thesis using None "1.prems"(1)
        by (simp add: JoinedIterator_remaining_def)
    next
      case False
      let ?it2 = "?it1\<lparr>currentIterator := Some (it_sources ?it1 ! nat (sourceIndex ?it1))\<rparr>"
      from "1.prems" None False have nxt: "JoinedIterator_next ?it2 = (r, it')"
        by (simp add: JoinedIterator_next.simps [of it] Let_def)
      have idx: "nat (sourceIndex it + 1) < length (it_sources it)"
        using False "1.prems"(1) by simp
      have "nat (sourceIndex it + 1 + 1) = Suc (nat (sourceIndex it + 1))"
        using "1.prems"(1) by simp
      then have "JoinedIterator_remaining ?it2
              = it_sources it ! nat (sourceIndex it + 1)
                  @ concat (drop (Suc (nat (sourceIndex it + 1))) (it_sources it))"
        by (simp add: JoinedIterator_remaining_def)
      also have "\<dots> = concat (drop (nat (sourceIndex it + 1)) (it_sources it))"
        using Cons_nth_drop_Suc [OF idx] by (metis concat.simps(2))
      finally have rem: "JoinedIterator_remaining ?it2 = JoinedIterator_remaining it"
        using None by (simp add: JoinedIterator_remaining_def)
      have "- 1 \<le> sourceIndex ?it2" using "1.prems"(1) by simp
      from "1.IH"(1) [OF None refl False this nxt] rem show ?thesis by (cases r) simp_all
    qed
  next
    case (Some xs)
    show ?thesis
    proof (cases xs)
      case Nil
      let ?it2 = "it\<lparr>currentIterator := None\<rparr>"
      from "1.prems" Some Nil have nxt: "JoinedIterator_next ?it2 = (r, it')"
        by (simp add: JoinedIterator_next.simps [of it])
      have rem: "JoinedIterator_remaining ?it2 = JoinedIterator_remaining it"
        using Some Nil by (simp add: JoinedIterator_remaining_def)
      have "- 1 \<le> sourceIndex ?it2" using "1.prems"(1) by simp
      from "1.IH"(2) [OF Some Nil this nxt] rem show ?thesis by (cases r) simp_all
    next
      case (Cons x rest)
      obtain key v where x: "x = (key, v)" by (cases x)
      have rem: "JoinedIterator_remaining it
                   = (key, v) # JoinedIterator_remaining (it\<lparr>currentIterator := Some rest\<rparr>)"
        using Some Cons x by (simp add: JoinedIterator_remaining_def)
      show ?thesis
      proof (cases "key \<in> encounteredKeys it")
        case False
        with "1.prems" Some Cons x
        have "r = Some (key, v)"
          "it' = it\<lparr>currentIterator := Some rest,
                  encounteredKeys := insert key (encounteredKeys it)\<rparr>"
          by (simp_all add: JoinedIterator_next.simps [of it])
        with False rem "1.prems"(1) show ?thesis
          by (simp add: JoinedIterator_remaining_def)
      next
        case True
        let ?it2 = "it\<lparr>currentIterator := Some rest\<rparr>"
        from "1.prems" Some Cons x True have nxt: "JoinedIterator_next ?it2 = (r, it')"
          by (simp add: JoinedIterator_next.simps [of it])
        have "- 1 \<le> sourceIndex ?it2" using "1.prems"(1) by simp
        from "1.IH"(3) [OF Some Cons x [symmetric] _ this nxt] True rem show ?thesis
          by (cases r) simp_all
      qed
    qed
  qed
qed

lemma JoinedIterator_drain_spec:
  "- 1 \<le> sourceIndex it \<Longrightarrow>
   JoinedIterator_drain it = first_wins (encounteredKeys it) (JoinedIterator_remaining it)"
proof (induction it rule: JoinedIterator_drain.induct)
  case (1 it)
  obtain r it' where nxt: "JoinedIterator_next it = (r, it')"
    by (cases "JoinedIterator_next it")
  note spec = JoinedIterator_next_spec [OF "1.prems" nxt]
  show ?case
  proof (cases r)
    case None
    with nxt spec show ?thesis
      by (simp add: JoinedIterator_drain.simps [of it])
  next
    case (Some kv)
    from "1.IH" [OF nxt [symmetric] Some] spec
    have "JoinedIterator_drain it'
            = first_wins (encounteredKeys it') (JoinedIterator_remaining it')"
      by simp
    with nxt Some spec show ?thesis
      by (simp add: JoinedIterator_drain.simps [of it])
  qed
qed

lemma JoinedIterator_drain_new:
  "JoinedIterator_drain (JoinedIterator_new srcs) = first_wins {} (concat srcs)"
  using JoinedIterator_drain_spec [of "JoinedIterator_new srcs"]
  by (simp add: JoinedIterator_new_def JoinedIterator_remaining_def)

lemma first_wins_keys: "fst ` set (first_wins seen xs) = fst ` set xs - seen"
  by (induction seen xs rule: first_wins.induct) auto

lemma first_wins_distinct: "distinct (map fst (first_wins seen xs))"
proof (induction seen xs rule: first_wins.induct)
  case (1 seen)
  then show ?case by simp
next
  case (2 seen k v xs)
  have "k \<notin> fst ` set (first_wins (insert k seen) xs)"
    by (simp add: first_wins_keys)
  with 2 show ?case by simp
qed

lemma first_wins_subseq: "subseq (first_wins seen xs) xs"
  by (induction seen xs rule: first_wins.induct) auto

lemma first_wins_map_of:
  "(k, v) \<in> set (first_wins seen xs) \<Longrightarrow> map_of xs k = Some v"
proof (induction seen xs rule: first_wins.induct)
  case (1 seen)
  then show ?case by simp
next
  case (2 seen k' v' xs)
  show ?case
  proof (cases "k' \<in> seen")
    case True
    with "2.prems" have mem: "(k, v) \<in> set (first_wins seen xs)" by simp
    then have "k \<in> fst ` set (first_wins seen xs)" by force
    then have "k \<notin> seen" by (simp add: first_wins_keys)
    with True have "k \<noteq> k'" by blast
    with "2.IH"(1) [OF True mem] show ?thesis by simp
  next
    case False
    show ?thesis
    proof (cases "(k, v) = (k', v')")
      case True
      then show ?thesis by simp
    next
      case other: False
      with "2.prems" False have mem: "(k, v) \<in> set (first_wins (insert k' seen) xs)" by auto
      then have "k \<in> fst ` set (first_wins (insert k' seen) xs)" by force
      then have "k \<noteq> k'" by (simp add: first_wins_keys)
      with "2.IH"(2) [OF False mem] show ?thesis by simp
    qed
  qed
qed

lemma map_of_concat_first:
  "map_of (concat srcs) k = Some v \<Longrightarrow>
     \<exists>i < length srcs. map_of (srcs ! i) k = Some v \<and> (\<forall>j < i. map_of (srcs ! j) k = None)"
proof (induction srcs)
  case Nil
  then show ?case by simp
next
  case (Cons s ss)
  show ?case
  proof (cases "map_of s k")
    case (Some v')
    with Cons.prems have "v' = v" by (simp add: map_add_def)
    with Some show ?thesis by (intro exI [of _ 0]) simp
  next
    case None
    with Cons.prems have "map_of (concat ss) k = Some v" by (simp add: map_add_def)
    from Cons.IH [OF this] obtain i where i: "i < length ss" "map_of (ss ! i) k = Some v"
      "\<forall>j < i. map_of (ss ! j) k = None" by blast
    have "\<forall>j < Suc i. map_of ((s # ss) ! j) k = None"
    proof (intro allI impI)
      fix j assume "j < Suc i"
      then show "map_of ((s # ss) ! j) k = None"
        using None i(3) by (cases j) simp_all
    qed
    with i show ?thesis by (intro exI [of _ "Suc i"]) simp
  qed
qed

text \<open>
  C2. Iterating a \<open>JoinedMap\<close> yields exactly the sources' entries in source order and,
  within a source, in that source's order, with every entry left out whose key an
  earlier entry has already yielded (\<open>first_wins\<close> over the concatenated sources). So each
  key is yielded at most once, the result is a subsequence of the concatenated sources,
  every key of every source is yielded, and the value yielded for a key is the one held by
  the lowest-indexed source containing the key: entries for the key in later sources are
  not yielded.
\<close>

theorem JoinedMap_iteration_first_source_wins:
  fixes h :: "('k, jsval) heap" and jm :: "('k, 'p) JoinedMap"
  defines "ys \<equiv> JoinedMap_entries h jm"
  shows "ys = first_wins {} (concat (map h (sources jm)))
       \<and> distinct (map fst ys)
       \<and> subseq ys (concat (map h (sources jm)))
       \<and> fst ` set ys = (\<Union>s \<in> set (sources jm). fst ` set (h s))
       \<and> (\<forall>k v. (k, v) \<in> set ys \<longrightarrow>
            (\<exists>i < length (sources jm).
               source_get h (sources jm ! i) k = Some v
               \<and> (\<forall>j < i. source_get h (sources jm ! j) k = None)))"
proof -
  have ys: "ys = first_wins {} (concat (map h (sources jm)))"
    by (simp add: ys_def JoinedMap_entries_def JoinedMap_iterator_def JoinedIterator_drain_new)
  have vals: "\<forall>k v. (k, v) \<in> set ys \<longrightarrow>
            (\<exists>i < length (sources jm).
               source_get h (sources jm ! i) k = Some v
               \<and> (\<forall>j < i. source_get h (sources jm ! j) k = None))"
  proof (intro allI impI)
    fix k v assume "(k, v) \<in> set ys"
    then have "map_of (concat (map h (sources jm))) k = Some v"
      unfolding ys by (rule first_wins_map_of)
    from map_of_concat_first [OF this]
    obtain i where "i < length (sources jm)" "map_of (map h (sources jm) ! i) k = Some v"
      "\<forall>j < i. map_of (map h (sources jm) ! j) k = None"
      by auto
    then show "\<exists>i < length (sources jm).
               source_get h (sources jm ! i) k = Some v
               \<and> (\<forall>j < i. source_get h (sources jm ! j) k = None)"
      by (intro exI [of _ i]) (simp add: source_get_def)
  qed
  have "fst ` set ys = fst ` set (concat (map h (sources jm)))"
    by (simp add: ys first_wins_keys)
  also have "\<dots> = (\<Union>s \<in> set (sources jm). fst ` set (h s))"
    by (simp add: image_UN)
  finally have keys: "fst ` set ys = (\<Union>s \<in> set (sources jm). fst ` set (h s))" .
  have dist: "distinct (map fst ys)"
    unfolding ys by (rule first_wins_distinct)
  have sub: "subseq ys (concat (map h (sources jm)))"
    unfolding ys by (rule first_wins_subseq)
  from ys dist sub keys vals show ?thesis by (intro conjI)
qed

theorem JoinedMap_iteration_first_source_wins_witness:
  "JoinedMap_entries
     (\<lambda>s. if s = 0 then [(''a'', Num 1)] else if s = 1 then [(''a'', Num 2), (''b'', Num 3)] else [])
     (JoinedMap_new [0, 1] :: (string, unit) JoinedMap)
     = [(''a'', Num 1), (''b'', Num 3)]
   \<and> JoinedMap_entries
       (\<lambda>s. if s = 0 then [(''a'', Num 1)] else if s = 1 then [(''b'', Num 2), (''a'', Num 1)] else [])
       (JoinedMap_new [0, 1] :: (string, unit) JoinedMap)
     = [(''a'', Num 1), (''b'', Num 2)]"
  using JoinedMap_iteration_first_source_wins
          [of "\<lambda>s. if s = 0 then [(''a'', Num 1)]
                   else if s = 1 then [(''a'', Num 2), (''b'', Num 3)] else []"
              "JoinedMap_new [0, 1] :: (string, unit) JoinedMap"]
        JoinedMap_iteration_first_source_wins
          [of "\<lambda>s. if s = 0 then [(''a'', Num 1)]
                   else if s = 1 then [(''b'', Num 2), (''a'', Num 1)] else []"
              "JoinedMap_new [0, 1] :: (string, unit) JoinedMap"]
  by (simp add: JoinedMap_new_def)

section \<open>Events that arrive before the derived state is built\<close>








text \<open>
  The guard of \<open>JoinedMap\<close> tests a field that \<open>onUnsubscribeLast\<close> does not reset:
  after a first subscription has ended, an update delivered during the next
  \<open>onSubscribeFirst\<close> is forwarded.
\<close>

lemma JoinedMap_resubscribe_update_forwarded:
  "emitted (JoinedMap_onSubscribeFirst [(\<lambda>s. [(''a'', Num 1)], 0, MapUpdate ''a'' (Num 1) ())]
              (JoinedMap_onUnsubscribeLast
                 (JoinedMap_onSubscribeFirst [] (JoinedMap_new [0] :: (string, unit) JoinedMap))))
     = [MapUpdate ''a'' (Num 1) ()]"
  by (simp add: JoinedMap_onSubscribeFirst_def JoinedMap_onUnsubscribeLast_def JoinedMap_new_def
      JoinedMap_onUpdate_def JoinedMap_emitUpdate_def emit_def
      isKeyAtSourceOccluded_def indexOf_def isKeyAtSourceOccluded_loop.simps)

end
